theory Spec2Isabelle
  imports Main
begin

section \<open>Decorations service (decorations-service.ts)\<close>

text \<open>
  A URI is the sequence of key segments under which the provider cache files it.  The
  cache compares segments after its own normalisation (\<^verbatim>\<open>forUris(true)\<close> ignores
  path casing), so a segment here stands for a normalised one.
\<close>

type_synonym uri = "string list"

text \<open>The \<^verbatim>\<open>Decoration\<close> interface: every field is optional.\<close>

record decoration =
  weight :: "int option"
  colorId :: "string option"
  letter :: "string option"
  tooltip :: "string option"
  bubble :: "bool option"

text \<open>
  A cache slot holds \<^verbatim>\<open>DecorationDataRequest | Decoration | undefined\<close>.  A request
  object is identified by the position at which the wrapper created it.
\<close>

datatype item = Undefined | Request nat | Deco decoration

text \<open>
  What is known about one \<^verbatim>\<open>DecorationDataRequest\<close>: the URI it was started for,
  whether its \<^verbatim>\<open>CancellationTokenSource\<close> has been cancelled, and whether the
  provider's promise has settled.
\<close>

record request =
  req_uri :: uri
  cancelled :: bool
  settled :: bool

text \<open>
  Modelled from the spec: the class \<^verbatim>\<open>TernarySearchTree\<close> is not among the sources.
  The spec describes it as a prefix tree keyed by URI segments that answers ancestor and
  descendant queries.  It is modelled as an association list with one entry per key;
  \<open>tst_findSuperstr\<close> yields the values filed strictly below a key.
\<close>

type_synonym tst = "(uri \<times> item) list"

definition tst_get :: "tst \<Rightarrow> uri \<Rightarrow> item" where
  "tst_get t k = (case map_of t k of None \<Rightarrow> Undefined | Some v \<Rightarrow> v)"

definition tst_delete :: "tst \<Rightarrow> uri \<Rightarrow> tst" where
  "tst_delete t k = filter (\<lambda>p. fst p \<noteq> k) t"

definition tst_set :: "tst \<Rightarrow> uri \<Rightarrow> item \<Rightarrow> tst" where
  "tst_set t k v = (k, v) # tst_delete t k"

definition isSuperstr :: "uri \<Rightarrow> uri \<Rightarrow> bool" where
  "isSuperstr k k' = (length k < length k' \<and> take (length k) k' = k)"

definition tst_findSuperstr :: "tst \<Rightarrow> uri \<Rightarrow> item list" where
  "tst_findSuperstr t k = map snd (filter (\<lambda>p. isSuperstr k (fst p)) t)"

text \<open>\<^verbatim>\<open>DecorationProviderWrapper\<close>: the cache \<^verbatim>\<open>data\<close> and the requests created so far.\<close>

record wrapper =
  data :: tst
  requests :: "request list"

definition new_wrapper :: wrapper where
  "new_wrapper = \<lparr>data = [], requests = []\<rparr>"

text \<open>
  A value that is thrown, or that a rejected promise carries, as far as a handler
  inspects it.
\<close>

record js_error =
  instanceofError :: bool
  err_name :: string
  err_message :: string

text \<open>
  What one call of \<^verbatim>\<open>provider.provideDecorations(uri, token)\<close> does: it hands back a
  value at once (a decoration or \<^verbatim>\<open>undefined\<close>), or a thenable that settles later,
  or it throws.
\<close>

datatype answer = Sync "decoration option" | Async | Throws js_error

definition item_of :: "decoration option \<Rightarrow> item" where
  "item_of d = (case d of None \<Rightarrow> Undefined | Some x \<Rightarrow> Deco x)"

text \<open>\<^verbatim>\<open>keepItem\<close>: \<^verbatim>\<open>const deco = data || undefined; this.data.set(uri, deco); return deco\<close>.\<close>

definition keepItem :: "wrapper \<Rightarrow> uri \<Rightarrow> decoration option \<Rightarrow> decoration option \<times> wrapper" where
  "keepItem w u d = (d, w\<lparr>data := tst_set (data w) u (item_of d)\<rparr>)"

definition cancel_request :: "nat \<Rightarrow> request list \<Rightarrow> request list" where
  "cancel_request r rs = (if r < length rs then rs[r := (rs ! r)\<lparr>cancelled := True\<rparr>] else rs)"

text \<open>
  \<^verbatim>\<open>fetchData\<close>: a pending request in the slot is cancelled and its marker deleted; the
  provider is asked; a value is kept at once, a thenable is wrapped in a fresh request
  that becomes the slot's marker.  Nothing catches what the provider throws: the call
  ends there, \<open>Inl\<close>, with the wrapper as it is by then.
\<close>

definition cancelPending :: "wrapper \<Rightarrow> uri \<Rightarrow> wrapper" where
  "cancelPending w u =
     (case tst_get (data w) u of
        Request r \<Rightarrow> w\<lparr>requests := cancel_request r (requests w),
                       data := tst_delete (data w) u\<rparr>
      | _ \<Rightarrow> w)"

definition fetchData ::
  "wrapper \<Rightarrow> uri \<Rightarrow> answer \<Rightarrow> (js_error + decoration option) \<times> wrapper" where
  "fetchData w u a =
     (let w1 = cancelPending w u
      in case a of
           Throws e \<Rightarrow> (Inl e, w1)
         | Sync d \<Rightarrow> (case keepItem w1 u d of (deco, w2) \<Rightarrow> (Inr deco, w2))
         | Async \<Rightarrow>
             (let r = length (requests w1)
              in (Inr None,
                  w1\<lparr>requests := requests w1 @ [\<lparr>req_uri = u, cancelled = False, settled = False\<rparr>],
                     data := tst_set (data w1) u (Request r)\<rparr>)))"

definition mark_settled :: "nat \<Rightarrow> request list \<Rightarrow> request list" where
  "mark_settled r rs = (if r < length rs then rs[r := (rs ! r)\<lparr>settled := True\<rparr>] else rs)"

text \<open>
  The \<^verbatim>\<open>then\<close> handler of request \<open>r\<close>:
  \<^verbatim>\<open>if (this.data.get(uri) === request) { this.keepItem(uri, data) }\<close>.
  A promise settles once; a request that is unknown or has settled is left alone.
\<close>

definition onResolved :: "wrapper \<Rightarrow> nat \<Rightarrow> decoration option \<Rightarrow> wrapper" where
  "onResolved w r d =
     (if r < length (requests w) \<and> \<not> settled (requests w ! r) then
        (let u = req_uri (requests w ! r);
             w1 = w\<lparr>requests := mark_settled r (requests w)\<rparr>
         in if tst_get (data w1) u = Request r then snd (keepItem w1 u d) else w1)
      else w)"

text \<open>\<^verbatim>\<open>err instanceof Error && err.name === 'Canceled' && err.message === 'Canceled'\<close>\<close>

definition isCanceledError :: "js_error \<Rightarrow> bool" where
  "isCanceledError e = (instanceofError e \<and> err_name e = ''Canceled'' \<and> err_message e = ''Canceled'')"

text \<open>
  The \<^verbatim>\<open>catch\<close> handler of request \<open>r\<close>:
  \<^verbatim>\<open>if (!(canceled-shaped) && this.data.get(uri) === request) { this.data.delete(uri) }\<close>.
\<close>

definition onRejected :: "wrapper \<Rightarrow> nat \<Rightarrow> js_error \<Rightarrow> wrapper" where
  "onRejected w r e =
     (if r < length (requests w) \<and> \<not> settled (requests w ! r) then
        (let u = req_uri (requests w ! r);
             w1 = w\<lparr>requests := mark_settled r (requests w)\<rparr>
         in if \<not> isCanceledError e \<and> tst_get (data w1) u = Request r
            then w1\<lparr>data := tst_delete (data w1) u\<rparr> else w1)
      else w)"

text \<open>
  \<^verbatim>\<open>getOrRetrieve\<close>: the calls it makes to \<^verbatim>\<open>callback(data, isChild)\<close>, in order, and
  the wrapper afterwards; \<open>Inl\<close> when \<^verbatim>\<open>fetchData\<close> has thrown, before any callback.
\<close>

definition resolved_items :: "item list \<Rightarrow> decoration list" where
  "resolved_items vs = concat (map (\<lambda>v. case v of Deco d \<Rightarrow> [d] | _ \<Rightarrow> []) vs)"

definition callbacks :: "item \<Rightarrow> bool \<Rightarrow> wrapper \<Rightarrow> uri \<Rightarrow> (decoration \<times> bool) list" where
  "callbacks item1 includeChildren w1 u =
     (case item1 of Deco d \<Rightarrow> [(d, False)] | _ \<Rightarrow> []) @
     (if includeChildren
      then map (\<lambda>d. (d, True)) (resolved_items (tst_findSuperstr (data w1) u))
      else [])"

definition getOrRetrieve ::
  "wrapper \<Rightarrow> uri \<Rightarrow> bool \<Rightarrow> answer \<Rightarrow> (js_error + (decoration \<times> bool) list) \<times> wrapper" where
  "getOrRetrieve w u includeChildren a =
     (let item0 = tst_get (data w) u
      in if item0 = Undefined
         then (case fetchData w u a of
                 (Inl e, w1) \<Rightarrow> (Inl e, w1)
               | (Inr d, w1) \<Rightarrow> (Inr (callbacks (item_of d) includeChildren w1 u), w1))
         else (Inr (callbacks item0 includeChildren w u), w))"

text \<open>
  \<^verbatim>\<open>DecorationsServiceImpl.getDecoration\<close>: every wrapper is asked in turn; the callback
  keeps \<^verbatim>\<open>deco\<close> when \<^verbatim>\<open>!isChild || deco.bubble\<close>.  The list \<open>as\<close> gives, wrapper by
  wrapper, what its provider would do if asked during this call.  The loop has no
  \<^verbatim>\<open>try\<close>: when a wrapper's \<^verbatim>\<open>getOrRetrieve\<close> throws, the call throws, the wrappers
  after it are not reached, and the array collected so far is lost.
\<close>

definition keeps :: "decoration \<times> bool \<Rightarrow> bool" where
  "keeps c = (\<not> snd c \<or> bubble (fst c) = Some True)"

fun getDecoration ::
  "wrapper list \<Rightarrow> uri \<Rightarrow> bool \<Rightarrow> answer list \<Rightarrow>
   (js_error + decoration list) \<times> wrapper list" where
  "getDecoration [] u ic as = (Inr [], [])"
| "getDecoration (w # ws) u ic as =
     (case getOrRetrieve w u ic (case as of [] \<Rightarrow> Sync None | a # _ \<Rightarrow> a) of
        (Inl e, w') \<Rightarrow> (Inl e, w' # ws)
      | (Inr calls, w') \<Rightarrow>
          (case getDecoration ws u ic (tl as) of
             (Inl e, ws') \<Rightarrow> (Inl e, w' # ws')
           | (Inr rest, ws') \<Rightarrow> (Inr (map fst (filter keeps calls) @ rest), w' # ws')))"

text \<open>
  What can happen to one wrapper, one event at a time: a \<^verbatim>\<open>getDecoration\<close> call
  reaching it, a direct \<^verbatim>\<open>fetchData\<close> (the provider's change event re-fetches the
  URIs it lists), and the settling of a request's promise.
\<close>

datatype dec_event =
    GetDecoration uri bool answer
  | FetchData uri answer
  | Resolved nat "decoration option"
  | Rejected nat js_error

fun dec_step :: "wrapper \<Rightarrow> dec_event \<Rightarrow> wrapper" where
  "dec_step w (GetDecoration u ic a) = snd (getOrRetrieve w u ic a)"
| "dec_step w (FetchData u a) = snd (fetchData w u a)"
| "dec_step w (Resolved r d) = onResolved w r d"
| "dec_step w (Rejected r e) = onRejected w r e"

definition dec_run :: "dec_event list \<Rightarrow> wrapper" where
  "dec_run es = foldl dec_step new_wrapper es"

text \<open>A request is in flight: started, its token not cancelled, its promise not settled.\<close>

definition inFlight :: "wrapper \<Rightarrow> nat \<Rightarrow> bool" where
  "inFlight w r = (r < length (requests w) \<and> \<not> cancelled (requests w ! r) \<and> \<not> settled (requests w ! r))"


definition wf_tst :: "tst \<Rightarrow> bool" where
  "wf_tst t = distinct (map fst t)"

definition dec_inv :: "wrapper \<Rightarrow> bool" where
  "dec_inv w =
     (wf_tst (data w) \<and>
      (\<forall>r. inFlight w r \<longrightarrow> tst_get (data w) (req_uri (requests w ! r)) = Request r) \<and>
      (\<forall>k r. tst_get (data w) k = Request r \<longrightarrow>
          r < length (requests w) \<and> req_uri (requests w ! r) = k \<and> \<not> cancelled (requests w ! r)))"


text \<open>
  What one wrapper has for a call \<^verbatim>\<open>getDecoration(uri, includeChildren)\<close>, read from its
  cache as it is before the call and from what its provider does when asked: for the URI
  itself the decoration already resolved in the slot, or the one the provider hands back
  at once when the slot is empty, and nothing when the slot holds a request or the
  provider answers with a thenable; then, when children are included, the bubbling
  resolved decorations filed strictly below the URI.
\<close>

definition own_offer :: "wrapper \<Rightarrow> uri \<Rightarrow> answer \<Rightarrow> decoration list" where
  "own_offer w u a =
     (case tst_get (data w) u of
        Deco d \<Rightarrow> [d]
      | Request r \<Rightarrow> []
      | Undefined \<Rightarrow> (case a of Sync (Some d) \<Rightarrow> [d] | _ \<Rightarrow> []))"

definition offers :: "wrapper \<Rightarrow> uri \<Rightarrow> bool \<Rightarrow> answer \<Rightarrow> decoration list" where
  "offers w u includeChildren a =
     own_offer w u a @
     (if includeChildren
      then filter (\<lambda>d. bubble d = Some True) (resolved_items (tst_findSuperstr (data w) u))
      else [])"

text \<open>
  The provider of a wrapper is asked during the call exactly when the slot is empty; what
  it throws then, if it throws.
\<close>

definition thrown :: "wrapper \<Rightarrow> uri \<Rightarrow> answer \<Rightarrow> js_error option" where
  "thrown w u a =
     (case a of
        Throws e \<Rightarrow> if tst_get (data w) u = Undefined then Some e else None
      | _ \<Rightarrow> None)"

section \<open>Tree nodes and the tree core (tree.ts)\<close>

text \<open>
  Tree nodes are mutable objects that point at each other, so they live in a store: an
  address stands for an object's identity, and \<^verbatim>\<open>===\<close> on nodes is equality of
  addresses.  An optional property is an \<open>option\<close>; \<^verbatim>\<open>'children' in node\<close> is
  \<open>children \<noteq> None\<close>, and likewise for \<^verbatim>\<open>selected\<close> and \<^verbatim>\<open>expanded\<close>.
\<close>

type_synonym addr = nat

text \<open>
  A \<^verbatim>\<open>TreeElement\<close> of a tree source, as far as \<^verbatim>\<open>SourceTree\<close> reads it: its
  \<^verbatim>\<open>id\<close> and \<^verbatim>\<open>visible\<close> properties, whether
  \<^verbatim>\<open>CompositeTreeElement.hasElements(element)\<close> holds, and what
  \<^verbatim>\<open>expandByDefault()\<close> returns when the element has that method.
\<close>

record element =
  el_id :: "string option"
  el_visible :: "bool option"
  el_hasElements :: bool
  el_expandByDefault :: "bool option"

record node =
  nid :: string
  name :: "string option"
  visible :: "bool option"
  parent :: "addr option"
  previousSibling :: "addr option"
  nextSibling :: "addr option"
  busy :: "int option"
  children :: "addr list option"
  selected :: "bool option"
  expanded :: "bool option"
  element :: "element option"

type_synonym heap = "addr \<Rightarrow> node"

text \<open>What the tree emits and logs, in order.\<close>

datatype tree_event = Changed | NodeRefreshed addr | DidChangeBusy addr | ConsoleError string

text \<open>
  \<^verbatim>\<open>TreeImpl\<close>: the objects, the Node Store, \<^verbatim>\<open>_root\<close>, the events fired so far, and
  the first address no object has yet.

  The Node Store is the plain object \<^verbatim>\<open>this.nodes = {}\<close>.  \<open>nodes\<close> holds its own
  properties.  \<open>proto\<close> is its prototype: \<open>None\<close> for \<^verbatim>\<open>Object.prototype\<close>, which
  every \<^verbatim>\<open>{}\<close> starts with, and \<open>Some a\<close> once a node object \<open>a\<close> has been
  assigned under the key \<^verbatim>\<open>__proto__\<close>.
\<close>

record tree =
  heap :: heap
  nodes :: "string \<rightharpoonup> addr"
  proto :: "addr option"
  root :: "addr option"
  fired :: "tree_event list"
  fresh :: addr

text \<open>
  What \<^verbatim>\<open>this.nodes[id]\<close> can evaluate to: \<^verbatim>\<open>undefined\<close>, a node object, or something
  else that the prototype chain holds under the key: a built-in of
  \<^verbatim>\<open>Object.prototype\<close> (named by its key), or the value of a property of the node
  object that has become the prototype.
\<close>

datatype other =
    Builtin string
  | Text string
  | Flag bool
  | Count int
  | Array "addr list"
  | Element element

datatype stored = Absent | Found addr | Other other

text \<open>JavaScript truthiness of such a value.\<close>

fun truthy :: "stored \<Rightarrow> bool" where
  "truthy Absent = False"
| "truthy (Found a) = True"
| "truthy (Other (Builtin k)) = True"
| "truthy (Other (Text s)) = (s \<noteq> [])"
| "truthy (Other (Flag b)) = b"
| "truthy (Other (Count n)) = (n \<noteq> 0)"
| "truthy (Other (Array xs)) = True"
| "truthy (Other (Element e)) = True"

text \<open>
  The property names of \<^verbatim>\<open>Object.prototype\<close> in ECMAScript: every plain object
  answers them.
\<close>

definition object_prototype_keys :: "string list" where
  "object_prototype_keys =
     [''constructor'', ''hasOwnProperty'', ''isPrototypeOf'', ''propertyIsEnumerable'',
      ''toLocaleString'', ''toString'', ''valueOf'', ''__proto__'',
      ''__defineGetter__'', ''__defineSetter__'', ''__lookupGetter__'', ''__lookupSetter__'']"

definition object_prototype :: "string \<Rightarrow> stored" where
  "object_prototype k = (if k \<in> set object_prototype_keys then Other (Builtin k) else Absent)"

text \<open>
  Reading property \<open>k\<close> of a node object, for keys other than \<^verbatim>\<open>__proto__\<close>: its own
  properties first, then \<^verbatim>\<open>Object.prototype\<close>.
\<close>

definition node_property :: "heap \<Rightarrow> addr \<Rightarrow> string \<Rightarrow> stored" where
  "node_property h a k =
     (let n = h a;
          opt = (\<lambda>v. case v of None \<Rightarrow> Absent | Some x \<Rightarrow> Other x);
          ref = (\<lambda>v. case v of None \<Rightarrow> Absent | Some x \<Rightarrow> Found x)
      in if k = ''id'' then Other (Text (nid n))
         else if k = ''name'' then opt (map_option Text (name n))
         else if k = ''visible'' then opt (map_option Flag (visible n))
         else if k = ''parent'' then ref (parent n)
         else if k = ''previousSibling'' then ref (previousSibling n)
         else if k = ''nextSibling'' then ref (nextSibling n)
         else if k = ''busy'' then opt (map_option Count (busy n))
         else if k = ''children'' then opt (map_option Array (children n))
         else if k = ''selected'' then opt (map_option Flag (selected n))
         else if k = ''expanded'' then opt (map_option Flag (expanded n))
         else if k = ''element'' then opt (map_option Element (element n))
         else object_prototype k)"

text \<open>
  \<^verbatim>\<open>this.nodes[k]\<close>: an own property, else what the prototype chain holds.  The
  accessor \<^verbatim>\<open>__proto__\<close> of \<^verbatim>\<open>Object.prototype\<close> answers with the prototype of the
  store itself.
\<close>

definition store_get :: "tree \<Rightarrow> string \<Rightarrow> stored" where
  "store_get t k =
     (case nodes t k of
        Some a \<Rightarrow> Found a
      | None \<Rightarrow>
          (case proto t of
             None \<Rightarrow> object_prototype k
           | Some a \<Rightarrow> if k = ''__proto__'' then Found a else node_property (heap t) a k))"

text \<open>
  \<^verbatim>\<open>this.nodes[k] = node\<close>: the key \<^verbatim>\<open>__proto__\<close> runs the accessor's setter, which
  makes the node the prototype of the store and adds no property; any other key becomes
  an own property.  \<^verbatim>\<open>delete this.nodes[k]\<close> removes an own property.
\<close>

definition store_set :: "string \<Rightarrow> addr \<Rightarrow> tree \<Rightarrow> tree" where
  "store_set k a t =
     (if k = ''__proto__'' then t\<lparr>proto := Some a\<rparr> else t\<lparr>nodes := (nodes t)(k \<mapsto> a)\<rparr>)"

definition store_delete :: "string \<Rightarrow> tree \<Rightarrow> tree" where
  "store_delete k t = t\<lparr>nodes := (nodes t)(k := None)\<rparr>"


definition CompositeTreeNode_is :: "heap \<Rightarrow> addr \<Rightarrow> bool" where
  "CompositeTreeNode_is h a = (children (h a) \<noteq> None)"

text \<open>
  \<^verbatim>\<open>node.children\<close> of a node the source types as composite; reading an index outside a
  JavaScript array gives \<^verbatim>\<open>undefined\<close>.
\<close>

definition children_of :: "heap \<Rightarrow> addr \<Rightarrow> addr list" where
  "children_of h a = (case children (h a) of None \<Rightarrow> [] | Some cs \<Rightarrow> cs)"

definition child_at :: "addr list \<Rightarrow> nat \<Rightarrow> addr option" where
  "child_at cs i = (if i < length cs then Some (cs ! i) else None)"

text \<open>
  \<^verbatim>\<open>CompositeTreeNode.setParent(child, index, parent)\<close>: the neighbours are read from
  \<^verbatim>\<open>parent.children\<close> at \<^verbatim>\<open>index - 1\<close> and \<^verbatim>\<open>index + 1\<close>, the child is assigned
  parent and both siblings, then each neighbour that exists is pointed back at the child.
\<close>

definition setParent :: "addr \<Rightarrow> nat \<Rightarrow> addr \<Rightarrow> heap \<Rightarrow> heap" where
  "setParent child index p h =
     (let cs = children_of h p;
          prev = (case index of 0 \<Rightarrow> None | Suc j \<Rightarrow> child_at cs j);
          next = child_at cs (Suc index);
          h1 = h(child := (h child)\<lparr>parent := Some p, previousSibling := prev, nextSibling := next\<rparr>);
          h2 = (case prev of None \<Rightarrow> h1 | Some q \<Rightarrow> h1(q := (h1 q)\<lparr>nextSibling := Some child\<rparr>));
          h3 = (case next of None \<Rightarrow> h2 | Some q \<Rightarrow> h2(q := (h2 q)\<lparr>previousSibling := Some child\<rparr>))
      in h3)"



text \<open>
  \<^verbatim>\<open>children.forEach((child, index) => ...)\<close> with a body that may fail to return.
\<close>

fun forEachIndexed :: "(addr \<Rightarrow> nat \<Rightarrow> 's \<Rightarrow> 's option) \<Rightarrow> addr list \<Rightarrow> nat \<Rightarrow> 's \<Rightarrow> 's option" where
  "forEachIndexed body [] i s = Some s"
| "forEachIndexed body (c # cs) i s =
     (case body c i s of None \<Rightarrow> None | Some s' \<Rightarrow> forEachIndexed body cs (Suc i) s')"

text \<open>
  \<^verbatim>\<open>TreeImpl.addNode\<close>.  The recursion follows \<^verbatim>\<open>children\<close> arrays of the store, which
  may be cyclic, so it carries fuel: \<open>None\<close> means the fuel ran out (the source would not
  return).
\<close>

fun addNode :: "nat \<Rightarrow> addr option \<Rightarrow> tree \<Rightarrow> tree option" where
  "addNode 0 n t = None"
| "addNode (Suc f) None t = Some t"
| "addNode (Suc f) (Some a) t =
     (let t1 = store_set (nid (heap t a)) a t
      in case children (heap t1 a) of
           None \<Rightarrow> Some t1
         | Some cs \<Rightarrow>
             forEachIndexed
               (\<lambda>child index t'. addNode f (Some child) (t'\<lparr>heap := setParent child index a (heap t')\<rparr>))
               cs 0 t1)"

text \<open>\<^verbatim>\<open>TreeImpl.removeNode\<close>: children first, then \<^verbatim>\<open>delete this.nodes[node.id]\<close>.\<close>

fun removeNode :: "nat \<Rightarrow> addr option \<Rightarrow> tree \<Rightarrow> tree option" where
  "removeNode 0 n t = None"
| "removeNode (Suc f) None t = Some t"
| "removeNode (Suc f) (Some a) t =
     (case (case children (heap t a) of
              None \<Rightarrow> Some t
            | Some cs \<Rightarrow> forEachIndexed (\<lambda>child index t'. removeNode f (Some child) t') cs 0 t) of
        None \<Rightarrow> None
      | Some t1 \<Rightarrow> Some (store_delete (nid (heap t1 a)) t1))"

text \<open>\<^verbatim>\<open>TreeImpl.getRootNode\<close>: up the \<^verbatim>\<open>parent\<close> pointers, with fuel as above.\<close>

fun getRootNode :: "nat \<Rightarrow> heap \<Rightarrow> addr \<Rightarrow> addr option" where
  "getRootNode 0 h a = None"
| "getRootNode (Suc f) h a = (case parent (h a) of None \<Rightarrow> Some a | Some p \<Rightarrow> getRootNode f h p)"

text \<open>
  \<^verbatim>\<open>getNode(id)\<close>: \<^verbatim>\<open>id !== undefined ? this.nodes[id] : undefined\<close>, and
  \<^verbatim>\<open>validateNode(node)\<close>.
\<close>

definition getNode :: "tree \<Rightarrow> string option \<Rightarrow> stored" where
  "getNode t i = (case i of None \<Rightarrow> Absent | Some s \<Rightarrow> store_get t s)"

definition validateNode :: "tree \<Rightarrow> addr option \<Rightarrow> stored" where
  "validateNode t n = getNode t (map_option (\<lambda>a. nid (heap t a)) n)"

definition fireChanged :: "tree \<Rightarrow> tree" where
  "fireChanged t = t\<lparr>fired := fired t @ [Changed]\<rparr>"

text \<open>
  \<^verbatim>\<open>fireNodeRefreshed\<close>: the wait-until event \<^verbatim>\<open>onNodeRefreshed\<close>, then, once its
  listeners have finished, \<^verbatim>\<open>onChanged\<close>.
\<close>

definition fireNodeRefreshed :: "addr \<Rightarrow> tree \<Rightarrow> tree" where
  "fireNodeRefreshed p t = fireChanged (t\<lparr>fired := fired t @ [NodeRefreshed p]\<rparr>)"

definition belongs_message :: "string \<Rightarrow> string \<Rightarrow> string" where
  "belongs_message pid rid =
     ''Child node '' @ [CHR 0x27] @ pid @ [CHR 0x27] @ '' does not belong to this '' @
     [CHR 0x27] @ rid @ [CHR 0x27] @ '' tree.''"

text \<open>
  \<^verbatim>\<open>TreeImpl.setChildren\<close>: the result is the node it resolves to (\<open>None\<close> for
  \<^verbatim>\<open>undefined\<close>) and the tree afterwards.  The guard is
  \<^verbatim>\<open>this.nodes[root.id] && this.nodes[root.id] !== root\<close>.
\<close>

definition setChildren :: "nat \<Rightarrow> addr \<Rightarrow> addr list \<Rightarrow> tree \<Rightarrow> (addr option \<times> tree) option" where
  "setChildren f p cs t =
     (case getRootNode f (heap t) p of
        None \<Rightarrow> None
      | Some r \<Rightarrow>
          if truthy (store_get t (nid (heap t r))) \<and> store_get t (nid (heap t r)) \<noteq> Found r
          then Some (None, t\<lparr>fired := fired t @
                  [ConsoleError (belongs_message (nid (heap t p)) (nid (heap t r)))]\<rparr>)
          else (case removeNode f (Some p) t of
                  None \<Rightarrow> None
                | Some t1 \<Rightarrow>
                    (case addNode f (Some p)
                            (t1\<lparr>heap := (heap t1)(p := (heap t1 p)\<lparr>children := Some cs\<rparr>)\<rparr>) of
                       None \<Rightarrow> None
                     | Some t2 \<Rightarrow> Some (Some p, fireNodeRefreshed p t2))))"

text \<open>\<^verbatim>\<open>doSetBusy\<close> and \<^verbatim>\<open>doResetBusy\<close>; \<^verbatim>\<open>node.busy || 0\<close> reads a missing count as 0.\<close>

definition busy_or_0 :: "node \<Rightarrow> int" where
  "busy_or_0 n = (case busy n of None \<Rightarrow> 0 | Some b \<Rightarrow> b)"

definition doSetBusy :: "addr \<Rightarrow> tree \<Rightarrow> tree" where
  "doSetBusy a t =
     (let oldBusy = busy_or_0 (heap t a);
          t1 = t\<lparr>heap := (heap t)(a := (heap t a)\<lparr>busy := Some (oldBusy + 1)\<rparr>)\<rparr>
      in if oldBusy = 0 then t1\<lparr>fired := fired t1 @ [DidChangeBusy a]\<rparr> else t1)"

definition doResetBusy :: "addr \<Rightarrow> tree \<Rightarrow> tree" where
  "doResetBusy a t =
     (let oldBusy = busy_or_0 (heap t a)
      in if oldBusy > 0 then
           (let t1 = t\<lparr>heap := (heap t)(a := (heap t a)\<lparr>busy := Some (oldBusy - 1)\<rparr>)\<rparr>
            in if oldBusy - 1 = 0 then t1\<lparr>fired := fired t1 @ [DidChangeBusy a]\<rparr> else t1)
         else t)"

text \<open>
  \<^verbatim>\<open>TreeImpl.resolveChildren\<close>, which subclasses override:
  \<^verbatim>\<open>Promise.resolve(Array.from(parent.children))\<close>.
\<close>

definition resolveChildren :: "tree \<Rightarrow> addr \<Rightarrow> addr list \<times> tree" where
  "resolveChildren t p = (children_of (heap t) p, t)"

text \<open>
  \<^verbatim>\<open>TreeImpl.refresh(raw, cancellationToken)\<close>, run to its end.  What happens while it
  awaits is given as arguments: \<open>tok\<close> is \<open>None\<close> when no token was passed, else what
  \<^verbatim>\<open>isCancellationRequested\<close> reads at the first and at the second check;
  \<open>busyElapsed\<close> says whether the 800 ms of its busy marker ran out while
  \<^verbatim>\<open>resolveChildren\<close> was awaited; \<open>rc\<close> is the \<^verbatim>\<open>resolveChildren\<close> in force.
  The \<^verbatim>\<open>finally\<close> block cancels the busy marker's token, whose listener is
  \<^verbatim>\<open>doResetBusy\<close>.  \<open>refresh_target\<close> is
  \<^verbatim>\<open>!raw ? this._root : this.validateNode(raw)\<close>; of the values it can be, only a
  node object with \<^verbatim>\<open>children\<close> passes \<^verbatim>\<open>CompositeTreeNode.is\<close>.
\<close>

definition refresh_target :: "tree \<Rightarrow> addr option \<Rightarrow> stored" where
  "refresh_target t raw =
     (case raw of
        None \<Rightarrow> (case root t of None \<Rightarrow> Absent | Some r \<Rightarrow> Found r)
      | Some r \<Rightarrow> validateNode t (Some r))"

definition refresh ::
  "nat \<Rightarrow> addr option \<Rightarrow> (bool \<times> bool) option \<Rightarrow> bool \<Rightarrow> (tree \<Rightarrow> addr \<Rightarrow> addr list \<times> tree) \<Rightarrow>
   tree \<Rightarrow> (addr option \<times> tree) option" where
  "refresh f raw tok busyElapsed rc t =
     (case refresh_target t raw of
        Found p \<Rightarrow>
          if CompositeTreeNode_is (heap t) p then
            (let (cs, t1) = rc t p;
                 t2 = (if busyElapsed then doSetBusy p t1 else t1)
             in if (case tok of None \<Rightarrow> False | Some (c1, c2) \<Rightarrow> c1)
                then Some (None, doResetBusy p t2)
                else (case setChildren f p cs t2 of
                        None \<Rightarrow> None
                      | Some (result, t3) \<Rightarrow>
                          if (case tok of None \<Rightarrow> False | Some (c1, c2) \<Rightarrow> c2)
                          then Some (None, doResetBusy p t3)
                          else Some (result, fireChanged (doResetBusy p t3))))
          else Some (None, fireChanged t)
      | _ \<Rightarrow> Some (None, fireChanged t))"


text \<open>A node object with nothing but an id, and a small tree to run the operations on.\<close>

definition blank_node :: "string \<Rightarrow> node" where
  "blank_node i =
     \<lparr>nid = i, name = None, visible = None, parent = None, previousSibling = None,
      nextSibling = None, busy = None, children = None, selected = None, expanded = None,
      element = None\<rparr>"

text \<open>
  Object 0 is a root with the children 1 and 2; object 1 is a composite with the child
  3.  Object 4 is another object that carries the root's id.
\<close>

definition example_heap :: heap where
  "example_heap =
     (\<lambda>_. blank_node [])
       (0 := (blank_node ''root'')\<lparr>children := Some [1, 2], expanded := Some True\<rparr>,
        1 := (blank_node ''dir1'')\<lparr>children := Some [3], selected := Some False,
                                    expanded := Some True\<rparr>,
        2 := (blank_node ''dir2'')\<lparr>selected := Some False\<rparr>,
        3 := (blank_node ''file1'')\<lparr>selected := Some False\<rparr>,
        4 := (blank_node ''root'')\<lparr>children := Some []\<rparr>)"

definition example_tree :: tree where
  "example_tree =
     \<lparr>heap = example_heap, nodes = Map.empty, proto = None, root = None, fired = [], fresh = 5\<rparr>"


section \<open>Busy markers (TreeImpl.doMarkAsBusy)\<close>

text \<open>
  One call of \<^verbatim>\<open>doMarkAsBusy(node, ms, token)\<close> registers \<^verbatim>\<open>doResetBusy(node)\<close> as a
  listener of the token and waits for \<^verbatim>\<open>timeout(ms, token)\<close>.  Afterwards two things
  can happen to it: its timer runs out, and then \<^verbatim>\<open>doSetBusy(node)\<close> runs unless the
  token was cancelled before (cancelling clears the timer); and its token is cancelled,
  once, and then the listener \<^verbatim>\<open>doResetBusy(node)\<close> runs, whether or not the timer
  had run out.
\<close>

datatype marker_state = Waiting | Elapsed | Cancelled

record busy_sys =
  btree :: tree
  markers :: "(addr \<times> marker_state) list"

datatype busy_event = Mark addr | TimerElapsed nat | TokenCancelled nat

fun busy_step :: "busy_sys \<Rightarrow> busy_event \<Rightarrow> busy_sys" where
  "busy_step s (Mark a) = s\<lparr>markers := markers s @ [(a, Waiting)]\<rparr>"
| "busy_step s (TimerElapsed m) =
     (if m < length (markers s) \<and> snd (markers s ! m) = Waiting
      then s\<lparr>btree := doSetBusy (fst (markers s ! m)) (btree s),
             markers := (markers s)[m := (fst (markers s ! m), Elapsed)]\<rparr>
      else s)"
| "busy_step s (TokenCancelled m) =
     (if m < length (markers s) \<and> snd (markers s ! m) \<noteq> Cancelled
      then s\<lparr>btree := doResetBusy (fst (markers s ! m)) (btree s),
             markers := (markers s)[m := (fst (markers s ! m), Cancelled)]\<rparr>
      else s)"

definition busy_run :: "busy_event list \<Rightarrow> tree \<Rightarrow> busy_sys" where
  "busy_run es t = foldl busy_step \<lparr>btree = t, markers = []\<rparr> es"

text \<open>The node an event acts on, if it acts at all.\<close>

definition acts_on :: "busy_sys \<Rightarrow> busy_event \<Rightarrow> addr option" where
  "acts_on s e =
     (case e of
        Mark a \<Rightarrow> None
      | TimerElapsed m \<Rightarrow>
          if m < length (markers s) \<and> snd (markers s ! m) = Waiting then Some (fst (markers s ! m)) else None
      | TokenCancelled m \<Rightarrow>
          if m < length (markers s) \<and> snd (markers s ! m) \<noteq> Cancelled then Some (fst (markers s ! m)) else None)"

text \<open>
  Events with the time in milliseconds at which each happens, in order of time, and the
  state once everything up to a given time has happened.
\<close>

definition at_time :: "(nat \<times> busy_event) list \<Rightarrow> tree \<Rightarrow> nat \<Rightarrow> busy_sys" where
  "at_time timeline t now = busy_run (map snd (filter (\<lambda>p. fst p \<le> now) timeline)) t"

text \<open>
  Two markers on node \<open>a\<close>, both started at time 0 with a timeout of 800 ms: marker 0 is
  cancelled at \<open>tA\<close>, marker 1 at 400.
\<close>

definition two_markers :: "addr \<Rightarrow> nat \<Rightarrow> (nat \<times> busy_event) list" where
  "two_markers a tA =
     [(0, Mark a), (0, Mark a), (400, TokenCancelled 1), (800, TimerElapsed 0),
      (800, TimerElapsed 1), (tA, TokenCancelled 0)]"

text \<open>Every node's busy count, read as the source reads it, is at least 0.\<close>

definition busy_nonneg :: "tree \<Rightarrow> bool" where
  "busy_nonneg t = (\<forall>a. 0 \<le> busy_or_0 (heap t a))"

section \<open>Source tree (source-tree.ts)\<close>

text \<open>
  Modelled from the spec: \<^verbatim>\<open>ExpandableTreeNode.is\<close> (tree-expansion.ts) is not among
  the sources.  The spec's expandable node is a composite node with an expand/collapse
  flag.
\<close>

definition ExpandableTreeNode_is :: "node \<Rightarrow> bool" where
  "ExpandableTreeNode_is n = (children n \<noteq> None \<and> expanded n \<noteq> None)"

text \<open>The type guards of tree-selection.ts and source-tree.ts, on a node object.\<close>

definition SelectableTreeNode_is :: "node \<Rightarrow> bool" where
  "SelectableTreeNode_is n = (selected n \<noteq> None)"

definition TreeElementNode_is :: "node \<Rightarrow> bool" where
  "TreeElementNode_is n = (SelectableTreeNode_is n \<and> element n \<noteq> None)"

definition CompositeTreeElementNode_is :: "node \<Rightarrow> bool" where
  "CompositeTreeElementNode_is n =
     (TreeElementNode_is n \<and> children n \<noteq> None \<and> ExpandableTreeNode_is n \<and> visible n = Some True)"

text \<open>Template literals print the index in decimal.\<close>

function show_nat :: "nat \<Rightarrow> string" where
  "show_nat n = (if n < 10 then [''0123456789'' ! n] else show_nat (n div 10) @ [''0123456789'' ! (n mod 10)])"
  by pat_completeness auto
termination
  by (relation "measure (\<lambda>n. n)") auto

text \<open>
  \<^verbatim>\<open>const id = element.id ? String(element.id) : `${parent.id}:${index}`\<close>; an element id
  is taken to be a string, and the empty string is falsy.
\<close>

definition elementId :: "element \<Rightarrow> nat \<Rightarrow> addr \<Rightarrow> tree \<Rightarrow> string" where
  "elementId el index p t =
     (case el_id el of
        Some s \<Rightarrow> if s \<noteq> [] then s else nid (heap t p) @ '':'' @ show_nat index
      | None \<Rightarrow> nid (heap t p) @ '':'' @ show_nat index)"

text \<open>
  The object literal \<^verbatim>\<open>toNode\<close> returns when there is nothing to update: a new
  object, at the first unused address.
\<close>

definition newNode :: "element \<Rightarrow> string \<Rightarrow> bool \<Rightarrow> addr \<Rightarrow> tree \<Rightarrow> addr \<times> tree" where
  "newNode el i expand p t =
     (let a = fresh t;
          n = (blank_node i)\<lparr>name := Some i, parent := Some p, selected := Some False,
                              element := Some el\<rparr>;
          n' = (if el_hasElements el
                then n\<lparr>children := Some [], expanded := Some expand\<rparr> else n)
      in (a, t\<lparr>heap := (heap t)(a := n'), fresh := Suc a\<rparr>))"

text \<open>
  \<^verbatim>\<open>SourceTree.toNode\<close>.  \<^verbatim>\<open>existing\<close> is what \<^verbatim>\<open>getNode(id)\<close> answers.  A node
  object is updated in place by \<^verbatim>\<open>Object.assign(existing, { element, parent })\<close>;
  \<^verbatim>\<open>delete\<close> of a property makes it absent.  A falsy answer makes \<^verbatim>\<open>updated\<close> falsy
  and a new object is returned.  Any other truthy answer \<open>v\<close> is taken for the existing
  node all the same: element and parent are assigned to it and it is returned.  That is
  the result \<open>Inl v\<close>; what the assignments do to an object outside the store of node
  objects is not followed.
\<close>

definition toNode :: "element \<Rightarrow> nat \<Rightarrow> addr \<Rightarrow> tree \<Rightarrow> (other + addr) \<times> tree" where
  "toNode el index p t =
     (let i = elementId el index p t;
          expand = (case el_expandByDefault el of None \<Rightarrow> False | Some b \<Rightarrow> b);
          existing = getNode t (Some i)
      in case existing of
           Found a \<Rightarrow>
             (let h1 = (heap t)(a := (heap t a)\<lparr>parent := Some p, element := Some el\<rparr>)
              in if el_hasElements el then
                   (let h2 = (if \<not> ExpandableTreeNode_is (h1 a)
                              then h1(a := (h1 a)\<lparr>expanded := Some expand\<rparr>) else h1);
                        h3 = (if \<not> CompositeTreeNode_is h2 a
                              then h2(a := (h2 a)\<lparr>children := Some []\<rparr>) else h2)
                    in (Inr a, t\<lparr>heap := h3\<rparr>))
                 else
                   (let h2 = (if CompositeTreeElementNode_is (h1 a)
                              then h1(a := (h1 a)\<lparr>children := None, expanded := None\<rparr>) else h1);
                        h3 = (if ExpandableTreeNode_is (h2 a)
                              then h2(a := (h2 a)\<lparr>expanded := None\<rparr>) else h2);
                        h4 = (if CompositeTreeNode_is h3 a
                              then h3(a := (h3 a)\<lparr>children := None\<rparr>) else h3)
                    in (Inr a, t\<lparr>heap := h4\<rparr>)))
         | Other v \<Rightarrow>
             if truthy existing then (Inl v, t)
             else (case newNode el i expand p t of (a, t') \<Rightarrow> (Inr a, t'))
         | Absent \<Rightarrow> (case newNode el i expand p t of (a, t') \<Rightarrow> (Inr a, t')))"

text \<open>
  \<^verbatim>\<open>SourceTree.resolveChildren\<close>: \<open>els\<close> is what \<^verbatim>\<open>resolveElements(parent)\<close> yields;
  only elements whose \<^verbatim>\<open>visible\<close> is not \<^verbatim>\<open>false\<close> become nodes and take an index.
  The result is the array of nodes (\<open>Inr\<close>), unless \<^verbatim>\<open>toNode\<close> has handed back a
  value that is no node object (\<open>Inl\<close>, the first such value): the array then holds it
  among the nodes, and the run is not followed further.
\<close>

fun sourceNodes :: "element list \<Rightarrow> nat \<Rightarrow> addr \<Rightarrow> tree \<Rightarrow> (other + addr list) \<times> tree" where
  "sourceNodes [] index p t = (Inr [], t)"
| "sourceNodes (el # els) index p t =
     (if el_visible el \<noteq> Some False
      then (case toNode el index p t of
              (Inl v, t1) \<Rightarrow> (Inl v, t1)
            | (Inr a, t1) \<Rightarrow>
                (case sourceNodes els (Suc index) p t1 of
                   (Inl v, t2) \<Rightarrow> (Inl v, t2)
                 | (Inr as, t2) \<Rightarrow> (Inr (a # as), t2)))
      else sourceNodes els index p t)"

definition sourceResolveChildren ::
  "element list \<Rightarrow> tree \<Rightarrow> addr \<Rightarrow> (other + addr list) \<times> tree" where
  "sourceResolveChildren els t p = sourceNodes els 0 p t"

section \<open>Tree model (tree-model.ts)\<close>
























section \<open>Shapes of object graphs\<close>

text \<open>
  A node with its link properties blanked: two objects that agree on it differ at most
  in \<^verbatim>\<open>parent\<close>, \<^verbatim>\<open>previousSibling\<close> and \<^verbatim>\<open>nextSibling\<close>.
\<close>

definition unlinked :: "node \<Rightarrow> node" where
  "unlinked n = n\<lparr>parent := None, previousSibling := None, nextSibling := None\<rparr>"

text \<open>
  A finite tree of addresses, to say that the \<^verbatim>\<open>children\<close> arrays below an object
  form a tree: \<open>conforms h sh\<close> holds when every object of \<open>sh\<close> has exactly the
  children \<open>sh\<close> gives it (none for an object that is not composite).
\<close>

datatype shape = Shape addr "shape list"

fun shape_root :: "shape \<Rightarrow> addr" where
  "shape_root (Shape a ts) = a"

fun addrs :: "shape \<Rightarrow> addr list" where
  "addrs (Shape a ts) = a # concat (map addrs ts)"

fun below :: "shape \<Rightarrow> addr list" where
  "below (Shape a ts) = concat (map addrs ts)"


fun conforms :: "heap \<Rightarrow> shape \<Rightarrow> bool" where
  "conforms h (Shape a ts) =
     ((case children (h a) of None \<Rightarrow> ts = [] | Some cs \<Rightarrow> cs = map shape_root ts) \<and>
      (\<forall>t \<in> set ts. conforms h t))"

text \<open>
  The child at index \<open>i\<close> of \<open>a\<close> is linked: its \<^verbatim>\<open>parent\<close> is \<open>a\<close>, it occurs once
  in \<open>a\<close>'s \<^verbatim>\<open>children\<close>, and its sibling properties are the entries of that array
  next to it, \<^verbatim>\<open>undefined\<close> at the ends.
\<close>

definition lnk :: "heap \<Rightarrow> addr \<Rightarrow> nat \<Rightarrow> bool" where
  "lnk h a i =
     (let cs = children_of h a; c = cs ! i
      in parent (h c) = Some a \<and> count_list cs c = 1 \<and>
         previousSibling (h c) = (case i of 0 \<Rightarrow> None | Suc j \<Rightarrow> child_at cs j) \<and>
         nextSibling (h c) = child_at cs (Suc i))"

text \<open>Every child of every object of the shape is linked.\<close>

fun linked :: "heap \<Rightarrow> shape \<Rightarrow> bool" where
  "linked h (Shape a ts) = ((\<forall>i < length ts. lnk h a i) \<and> (\<forall>t \<in> set ts. linked h t))"


text \<open>
  The small store with object 4 as the root, filed in the Node Store, and a
  \<^verbatim>\<open>resolveChildren\<close> that resolves to the single child 2.
\<close>

definition stored_tree :: tree where
  "stored_tree = example_tree\<lparr>root := Some 4, nodes := [''root'' \<mapsto> 4]\<rparr>"

definition resolve_dir2 :: "tree \<Rightarrow> addr \<Rightarrow> addr list \<times> tree" where
  "resolve_dir2 t p = ([2], t)"

text \<open>
  Two trees that differ at most in link properties of their objects and in the Node
  Store; and two trees that differ at most in the Node Store.
\<close>

definition links_only :: "tree \<Rightarrow> tree \<Rightarrow> bool" where
  "links_only t t' =
     ((\<forall>b. unlinked (heap t' b) = unlinked (heap t b)) \<and>
      root t' = root t \<and> fired t' = fired t \<and> fresh t' = fresh t)"


section \<open>Provider failure policy\<close>

lemma tst_get_delete_same: "tst_get (tst_delete t k) k = Undefined"
proof -
  have "k \<notin> fst ` set (tst_delete t k)"
    by (auto simp: tst_delete_def)
  then have "map_of (tst_delete t k) k = None"
    by (simp add: map_of_eq_None_iff)
  then show ?thesis by (simp add: tst_get_def)
qed

lemma map_of_filter_other: "k' \<noteq> k \<Longrightarrow> map_of (filter (\<lambda>p. fst p \<noteq> k) t) k' = map_of t k'"
  by (induction t) auto

lemma tst_get_delete_other: "k' \<noteq> k \<Longrightarrow> tst_get (tst_delete t k) k' = tst_get t k'"
  by (simp add: tst_get_def tst_delete_def map_of_filter_other)

lemma tst_get_set_same: "tst_get (tst_set t k v) k = v"
  by (simp add: tst_get_def tst_set_def)

lemma tst_get_set_other: "k' \<noteq> k \<Longrightarrow> tst_get (tst_set t k v) k' = tst_get t k'"
  by (simp add: tst_get_def tst_set_def tst_delete_def map_of_filter_other)

text \<open>
  C8.  A rejected \<^verbatim>\<open>provideDecorations\<close> promise only ever reaches the \<^verbatim>\<open>catch\<close>
  handler, which returns normally.  A rejection shaped like a cancellation (an
  \<^verbatim>\<open>Error\<close> whose name and message are both \<^verbatim>\<open>'Canceled'\<close>) leaves the cache as
  it was.  Any other rejection of the request that is still the slot's marker deletes
  that slot and no other, so the URI reads as \<^verbatim>\<open>undefined\<close>, and a later
  \<^verbatim>\<open>getOrRetrieve\<close> for it (provider answering with a thenable again) calls back
  with nothing for the URI itself.
\<close>

theorem provider_rejection_policy:
  "(isCanceledError e \<longrightarrow> data (onRejected w r e) = data w) \<and>
   (r < length (requests w) \<and> \<not> settled (requests w ! r) \<and> \<not> isCanceledError e \<and>
    tst_get (data w) (req_uri (requests w ! r)) = Request r \<longrightarrow>
      tst_get (data (onRejected w r e)) (req_uri (requests w ! r)) = Undefined \<and>
      (\<forall>k. k \<noteq> req_uri (requests w ! r) \<longrightarrow>
           tst_get (data (onRejected w r e)) k = tst_get (data w) k) \<and>
      fst (getOrRetrieve (onRejected w r e) (req_uri (requests w ! r)) False Async) = Inr [])"
proof (intro conjI impI)
  assume "isCanceledError e"
  then show "data (onRejected w r e) = data w"
    by (simp add: onRejected_def Let_def)
next
  assume h: "r < length (requests w) \<and> \<not> settled (requests w ! r) \<and> \<not> isCanceledError e \<and>
    tst_get (data w) (req_uri (requests w ! r)) = Request r"
  let ?u = "req_uri (requests w ! r)"
  from h have d: "data (onRejected w r e) = tst_delete (data w) ?u"
    by (simp add: onRejected_def Let_def)
  show "tst_get (data (onRejected w r e)) ?u = Undefined"
    by (simp add: d tst_get_delete_same)
  show "\<forall>k. k \<noteq> ?u \<longrightarrow> tst_get (data (onRejected w r e)) k = tst_get (data w) k"
    by (simp add: d tst_get_delete_other)
  show "fst (getOrRetrieve (onRejected w r e) ?u False Async) = Inr []"
    by (simp add: getOrRetrieve_def Let_def d tst_get_delete_same fetchData_def item_of_def
        cancelPending_def callbacks_def split: prod.splits)
qed

theorem provider_rejection_policy_witness:
  "tst_get (data (snd (fetchData new_wrapper [''file'', ''a''] Async))) [''file'', ''a''] = Request 0 \<and>
   tst_get (data (onRejected (snd (fetchData new_wrapper [''file'', ''a''] Async)) 0
      \<lparr>instanceofError = True, err_name = ''Error'', err_message = ''boom''\<rparr>)) [''file'', ''a'']
     = Undefined \<and>
   data (onRejected (snd (fetchData new_wrapper [''file'', ''a''] Async)) 0
      \<lparr>instanceofError = True, err_name = ''Canceled'', err_message = ''Canceled''\<rparr>)
     = data (snd (fetchData new_wrapper [''file'', ''a''] Async))"
  using provider_rejection_policy [of
      "\<lparr>instanceofError = True, err_name = ''Error'', err_message = ''boom''\<rparr>"
      "snd (fetchData new_wrapper [''file'', ''a''] Async)" 0]
    provider_rejection_policy [of
      "\<lparr>instanceofError = True, err_name = ''Canceled'', err_message = ''Canceled''\<rparr>"
      "snd (fetchData new_wrapper [''file'', ''a''] Async)" 0]
  by (simp add: fetchData_def cancelPending_def new_wrapper_def tst_get_def tst_set_def
      tst_delete_def isCanceledError_def)

section \<open>At most one fetch in flight\<close>

lemma wf_delete: "wf_tst t \<Longrightarrow> wf_tst (tst_delete t k)"
  by (simp add: wf_tst_def tst_delete_def distinct_map_filter)

lemma wf_set: "wf_tst t \<Longrightarrow> wf_tst (tst_set t k v)"
  by (auto simp: wf_tst_def tst_set_def tst_delete_def distinct_map_filter)

lemma tst_get_set: "tst_get (tst_set t k v) k' = (if k' = k then v else tst_get t k')"
  by (simp add: tst_get_set_same tst_get_set_other)

lemma tst_get_delete: "tst_get (tst_delete t k) k' = (if k' = k then Undefined else tst_get t k')"
  by (simp add: tst_get_delete_same tst_get_delete_other)

lemma dec_inv_new: "dec_inv new_wrapper"
  by (simp add: dec_inv_def new_wrapper_def wf_tst_def inFlight_def tst_get_def)

lemma length_cancel_request [simp]: "length (cancel_request r rs) = length rs"
  by (simp add: cancel_request_def)

lemma nth_cancel_request:
  "i < length rs \<Longrightarrow> cancel_request r rs ! i = (if i = r then (rs ! i)\<lparr>cancelled := True\<rparr> else rs ! i)"
  by (simp add: cancel_request_def nth_list_update)

lemma length_mark_settled [simp]: "length (mark_settled r rs) = length rs"
  by (simp add: mark_settled_def)

lemma nth_mark_settled:
  "i < length rs \<Longrightarrow> mark_settled r rs ! i = (if i = r then (rs ! i)\<lparr>settled := True\<rparr> else rs ! i)"
  by (simp add: mark_settled_def nth_list_update)

lemma cancelPending_get: "tst_get (data (cancelPending w u)) k =
   (if k = u then (case tst_get (data w) u of Request r \<Rightarrow> Undefined | v \<Rightarrow> v) else tst_get (data w) k)"
  by (simp add: cancelPending_def tst_get_delete split: item.splits)

lemma cancelPending_length [simp]: "length (requests (cancelPending w u)) = length (requests w)"
  by (simp add: cancelPending_def split: item.splits)

lemma cancelPending_wf: "wf_tst (data w) \<Longrightarrow> wf_tst (data (cancelPending w u))"
  by (simp add: cancelPending_def wf_delete split: item.splits)

lemma cancelPending_nth: "i < length (requests w) \<Longrightarrow>
   requests (cancelPending w u) ! i =
     (if tst_get (data w) u = Request i then (requests w ! i)\<lparr>cancelled := True\<rparr> else requests w ! i)"
  by (auto simp: cancelPending_def nth_cancel_request split: item.splits)

lemma inFlight_cancelPending:
  assumes "dec_inv w" "inFlight (cancelPending w u) r"
  shows "inFlight w r \<and> req_uri (requests w ! r) \<noteq> u \<and> tst_get (data w) u \<noteq> Request r"
proof -
  from assms(2) have r: "r < length (requests w)" by (simp add: inFlight_def)
  from assms(2) r have nm: "tst_get (data w) u \<noteq> Request r"
    by (auto simp: inFlight_def cancelPending_nth)
  with assms(2) r have f: "inFlight w r" by (simp add: inFlight_def cancelPending_nth)
  with assms(1) have m: "tst_get (data w) (req_uri (requests w ! r)) = Request r"
    by (simp add: dec_inv_def)
  with nm f show ?thesis by auto
qed

lemma marker_cancelPending:
  assumes "dec_inv w" "tst_get (data (cancelPending w u)) k = Request r"
  shows "r < length (requests (cancelPending w u)) \<and> req_uri (requests (cancelPending w u) ! r) = k \<and>
        \<not> cancelled (requests (cancelPending w u) ! r)"
proof -
  from assms(2) have g: "tst_get (data w) k = Request r" and ku: "k \<noteq> u"
    by (auto simp: cancelPending_get split: if_splits item.splits)
  with assms have b: "r < length (requests w)" "req_uri (requests w ! r) = k" "\<not> cancelled (requests w ! r)"
    by (auto simp: dec_inv_def)
  from assms b ku have nm: "tst_get (data w) u \<noteq> Request r" by (auto simp: dec_inv_def)
  with b show ?thesis by (simp add: cancelPending_nth)
qed

lemma current_cancelPending:
  assumes "dec_inv w" "inFlight (cancelPending w u) r"
  shows "tst_get (data (cancelPending w u)) (req_uri (requests (cancelPending w u) ! r)) = Request r"
proof -
  from inFlight_cancelPending [OF assms]
  have f: "inFlight w r" and ne: "req_uri (requests w ! r) \<noteq> u" and nm: "tst_get (data w) u \<noteq> Request r"
    by auto
  from f have r: "r < length (requests w)" by (simp add: inFlight_def)
  from f assms have "tst_get (data w) (req_uri (requests w ! r)) = Request r"
    by (simp add: dec_inv_def)
  with ne nm r show ?thesis by (simp add: cancelPending_get cancelPending_nth)
qed

lemma dec_inv_cancelPending:
  assumes "dec_inv w" shows "dec_inv (cancelPending w u)"
  unfolding dec_inv_def
  using assms current_cancelPending [OF assms] marker_cancelPending [OF assms]
  by (simp add: dec_inv_def cancelPending_wf)

lemma cancelPending_slot: "tst_get (data (cancelPending w u)) u \<noteq> Request r"
  by (simp add: cancelPending_get split: item.splits)

lemma cancelPending_uri: "r < length (requests w) \<Longrightarrow>
   req_uri (requests (cancelPending w u) ! r) = req_uri (requests w ! r)"
  by (simp add: cancelPending_nth)

lemma no_inFlight_after_cancel:
  assumes "dec_inv w" "inFlight (cancelPending w u) r"
  shows "req_uri (requests (cancelPending w u) ! r) \<noteq> u"
  using current_cancelPending [OF assms] cancelPending_slot [of w u r] by auto

lemma dec_inv_keepItem:
  assumes "dec_inv w" "\<And>r. inFlight w r \<Longrightarrow> req_uri (requests w ! r) \<noteq> u"
  shows "dec_inv (snd (keepItem w u d))"
  using assms unfolding dec_inv_def keepItem_def inFlight_def
  by (auto simp: wf_set tst_get_set item_of_def split: option.splits)

lemma dec_inv_newRequest:
  assumes "dec_inv w" "\<And>r. inFlight w r \<Longrightarrow> req_uri (requests w ! r) \<noteq> u"
  shows "dec_inv (w\<lparr>requests := requests w @ [\<lparr>req_uri = u, cancelled = False, settled = False\<rparr>],
                          data := tst_set (data w) u (Request (length (requests w)))\<rparr>)"
    (is "dec_inv ?w'")
proof -
  have wf: "wf_tst (data ?w')" using assms(1) by (simp add: dec_inv_def wf_set)
  have cur: "tst_get (data ?w') (req_uri (requests ?w' ! r)) = Request r" if "inFlight ?w' r" for r
  proof (cases "r < length (requests w)")
    case True
    with that have f: "inFlight w r" by (simp add: inFlight_def nth_append)
    with assms(2) have "req_uri (requests w ! r) \<noteq> u" by simp
    moreover from f assms(1) have "tst_get (data w) (req_uri (requests w ! r)) = Request r"
      by (simp add: dec_inv_def)
    ultimately show ?thesis using True by (simp add: nth_append tst_get_set)
  next
    case False
    with that have "r = length (requests w)" by (simp add: inFlight_def)
    then show ?thesis by (simp add: tst_get_set)
  qed
  have mk: "r < length (requests ?w') \<and> req_uri (requests ?w' ! r) = k \<and> \<not> cancelled (requests ?w' ! r)"
    if "tst_get (data ?w') k = Request r" for k r
  proof (cases "k = u")
    case True
    with that have "r = length (requests w)" by (simp add: tst_get_set)
    with True show ?thesis by simp
  next
    case False
    with that have "tst_get (data w) k = Request r" by (simp add: tst_get_set)
    with assms(1) have "r < length (requests w) \<and> req_uri (requests w ! r) = k \<and> \<not> cancelled (requests w ! r)"
      by (simp add: dec_inv_def)
    then show ?thesis by (simp add: nth_append)
  qed
  show ?thesis unfolding dec_inv_def using wf cur mk by blast
qed

lemma snd_fetchData_Sync:
  "snd (fetchData w u (Sync d)) = snd (keepItem (cancelPending w u) u d)"
  by (simp add: fetchData_def split: prod.splits)

lemma dec_inv_fetchData: assumes "dec_inv w" shows "dec_inv (snd (fetchData w u a))"
proof (cases a)
  case (Sync d)
  then show ?thesis
    using dec_inv_keepItem [OF dec_inv_cancelPending [OF assms], where u = u and d = d]
      no_inFlight_after_cancel [OF assms]
    by (simp add: snd_fetchData_Sync)
next
  case Async
  then show ?thesis
    using dec_inv_newRequest [OF dec_inv_cancelPending [OF assms], where u = u]
      no_inFlight_after_cancel [OF assms]
    by (simp add: fetchData_def Let_def)
next
  case (Throws e)
  then show ?thesis
    using dec_inv_cancelPending [OF assms, of u] by (simp add: fetchData_def)
qed

lemma dec_inv_settle:
  assumes "dec_inv w" "r < length (requests w)"
  shows "dec_inv (w\<lparr>requests := mark_settled r (requests w)\<rparr>)"
  using assms unfolding dec_inv_def inFlight_def
  by (auto simp: nth_mark_settled)

lemma inFlight_settle:
  assumes "dec_inv w" "r < length (requests w)" "inFlight (w\<lparr>requests := mark_settled r (requests w)\<rparr>) r'"
  shows "tst_get (data w) (req_uri (requests w ! r)) = Request r \<longrightarrow>
         req_uri (requests (w\<lparr>requests := mark_settled r (requests w)\<rparr>) ! r') \<noteq> req_uri (requests w ! r)"
proof
  assume m: "tst_get (data w) (req_uri (requests w ! r)) = Request r"
  from assms(3) have r': "r' < length (requests w)" and ne: "r' \<noteq> r"
    by (auto simp: inFlight_def nth_mark_settled split: if_splits)
  with assms(3) have "inFlight w r'" by (simp add: inFlight_def nth_mark_settled)
  with assms(1) have "tst_get (data w) (req_uri (requests w ! r')) = Request r'" by (simp add: dec_inv_def)
  with m ne have "req_uri (requests w ! r') \<noteq> req_uri (requests w ! r)" by auto
  with r' ne show "req_uri (requests (w\<lparr>requests := mark_settled r (requests w)\<rparr>) ! r') \<noteq> req_uri (requests w ! r)"
    by (simp add: nth_mark_settled)
qed

lemma dec_inv_delete:
  assumes "dec_inv w" "\<And>r. inFlight w r \<Longrightarrow> req_uri (requests w ! r) \<noteq> u"
  shows "dec_inv (w\<lparr>data := tst_delete (data w) u\<rparr>)"
  using assms unfolding dec_inv_def inFlight_def
  by (auto simp: wf_delete tst_get_delete)

lemma dec_inv_onResolved: assumes "dec_inv w" shows "dec_inv (onResolved w r d)"
proof (cases "r < length (requests w) \<and> \<not> settled (requests w ! r)")
  case True
  let ?w1 = "w\<lparr>requests := mark_settled r (requests w)\<rparr>"
  from True assms have i1: "dec_inv ?w1" by (simp add: dec_inv_settle)
  show ?thesis
  proof (cases "tst_get (data w) (req_uri (requests w ! r)) = Request r")
    case m: True
    have "\<And>r'. inFlight ?w1 r' \<Longrightarrow> req_uri (requests ?w1 ! r') \<noteq> req_uri (requests w ! r)"
      using inFlight_settle [OF assms] True m by blast
    from dec_inv_keepItem [OF i1 this, of d] True m show ?thesis
      by (simp add: onResolved_def Let_def)
  next
    case False
    with True i1 show ?thesis by (simp add: onResolved_def Let_def)
  qed
next
  case False
  with assms show ?thesis by (auto simp: onResolved_def)
qed

lemma dec_inv_onRejected: assumes "dec_inv w" shows "dec_inv (onRejected w r e)"
proof (cases "r < length (requests w) \<and> \<not> settled (requests w ! r)")
  case True
  let ?w1 = "w\<lparr>requests := mark_settled r (requests w)\<rparr>"
  from True assms have i1: "dec_inv ?w1" by (simp add: dec_inv_settle)
  show ?thesis
  proof (cases "\<not> isCanceledError e \<and> tst_get (data w) (req_uri (requests w ! r)) = Request r")
    case m: True
    have "\<And>r'. inFlight ?w1 r' \<Longrightarrow> req_uri (requests ?w1 ! r') \<noteq> req_uri (requests w ! r)"
      using inFlight_settle [OF assms] True m by blast
    from dec_inv_delete [OF i1 this] True m show ?thesis
      by (simp add: onRejected_def Let_def)
  next
    case False
    with True i1 show ?thesis by (auto simp: onRejected_def Let_def)
  qed
next
  case False
  with assms show ?thesis by (auto simp: onRejected_def)
qed

lemma snd_getOrRetrieve: "snd (getOrRetrieve w u ic a) =
   (if tst_get (data w) u = Undefined then snd (fetchData w u a) else w)"
  by (simp add: getOrRetrieve_def Let_def split: prod.splits sum.splits)

lemma dec_inv_step: "dec_inv w \<Longrightarrow> dec_inv (dec_step w e)"
  by (cases e) (simp_all add: snd_getOrRetrieve dec_inv_fetchData dec_inv_onResolved dec_inv_onRejected)

lemma dec_inv_foldl: "dec_inv w \<Longrightarrow> dec_inv (foldl dec_step w es)"
  by (induction es arbitrary: w) (simp_all add: dec_inv_step)

lemma dec_inv_run: "dec_inv (dec_run es)"
  by (simp add: dec_run_def dec_inv_foldl dec_inv_new)


lemma fetchData_cancels:
  assumes "dec_inv w" "tst_get (data w) u = Request r"
  shows "cancelled (requests (snd (fetchData w u a)) ! r) \<and> tst_get (data (snd (fetchData w u a))) u \<noteq> Request r"
proof -
  from assms have r: "r < length (requests w)" by (auto simp: dec_inv_def)
  with assms(2) have c: "cancelled (requests (cancelPending w u) ! r)"
    by (simp add: cancelPending_nth)
  show ?thesis
  proof (cases a)
    case (Sync d)
    with c show ?thesis
      by (simp add: fetchData_def Let_def keepItem_def tst_get_set item_of_def split: option.splits)
  next
    case Async
    with c r show ?thesis
      by (simp add: fetchData_def Let_def tst_get_set nth_append)
  next
    case (Throws e)
    with c show ?thesis
      by (simp add: fetchData_def cancelPending_slot)
  qed
qed

lemma onResolved_stale:
  "tst_get (data w) (req_uri (requests w ! r)) \<noteq> Request r \<Longrightarrow> data (onResolved w r d) = data w"
  by (simp add: onResolved_def Let_def)

lemma onResolved_current:
  "r < length (requests w) \<Longrightarrow> \<not> settled (requests w ! r) \<Longrightarrow>
   tst_get (data w) (req_uri (requests w ! r)) = Request r \<Longrightarrow>
   tst_get (data (onResolved w r d)) (req_uri (requests w ! r)) = item_of d"
  by (simp add: onResolved_def Let_def keepItem_def tst_get_set)

text \<open>
  C3.  In every state a wrapper reaches through \<^verbatim>\<open>getDecoration\<close> calls, direct
  \<^verbatim>\<open>fetchData\<close> calls and the settling of promises, in any order:
  two requests in flight (token not cancelled, promise not settled) for the same URI are
  the same request; \<^verbatim>\<open>fetchData\<close> for a URI whose slot holds a request cancels that
  request's token and removes its marker; a resolved promise whose request is no longer
  the slot's entry leaves the cache as it is, and one whose request still is the entry
  stores its result; and a cancelled request is never the slot's entry, so its response
  is never cached.
\<close>

theorem fetch_at_most_one_in_flight:
  "(\<forall>r1 r2. inFlight (dec_run es) r1 \<and> inFlight (dec_run es) r2 \<and>
        req_uri (requests (dec_run es) ! r1) = req_uri (requests (dec_run es) ! r2) \<longrightarrow> r1 = r2) \<and>
   (\<forall>u a r. tst_get (data (dec_run es)) u = Request r \<longrightarrow>
        cancelled (requests (snd (fetchData (dec_run es) u a)) ! r) \<and>
        tst_get (data (snd (fetchData (dec_run es) u a))) u \<noteq> Request r) \<and>
   (\<forall>r d. tst_get (data (dec_run es)) (req_uri (requests (dec_run es) ! r)) \<noteq> Request r \<longrightarrow>
        data (onResolved (dec_run es) r d) = data (dec_run es)) \<and>
   (\<forall>r d. r < length (requests (dec_run es)) \<and> \<not> settled (requests (dec_run es) ! r) \<and>
        tst_get (data (dec_run es)) (req_uri (requests (dec_run es) ! r)) = Request r \<longrightarrow>
        tst_get (data (onResolved (dec_run es) r d)) (req_uri (requests (dec_run es) ! r)) = item_of d) \<and>
   (\<forall>r. r < length (requests (dec_run es)) \<and> cancelled (requests (dec_run es) ! r) \<longrightarrow>
        tst_get (data (dec_run es)) (req_uri (requests (dec_run es) ! r)) \<noteq> Request r)"
proof -
  let ?w = "dec_run es"
  have inv: "dec_inv ?w" by (rule dec_inv_run)
  have one: "r1 = r2" if "inFlight ?w r1" "inFlight ?w r2"
    "req_uri (requests ?w ! r1) = req_uri (requests ?w ! r2)" for r1 r2
  proof -
    from inv that(1) have "tst_get (data ?w) (req_uri (requests ?w ! r1)) = Request r1"
      by (simp add: dec_inv_def)
    moreover from inv that(2) have "tst_get (data ?w) (req_uri (requests ?w ! r2)) = Request r2"
      by (simp add: dec_inv_def)
    ultimately have "Request r1 = Request r2" by (simp only: that(3))
    then show ?thesis by (simp only: item.inject)
  qed
  have stale: "tst_get (data ?w) (req_uri (requests ?w ! r)) \<noteq> Request r"
    if "r < length (requests ?w)" "cancelled (requests ?w ! r)" for r
    using inv that by (auto simp: dec_inv_def)
  have A: "\<forall>r1 r2. inFlight ?w r1 \<and> inFlight ?w r2 \<and>
        req_uri (requests ?w ! r1) = req_uri (requests ?w ! r2) \<longrightarrow> r1 = r2"
    using one by blast
  have B: "\<forall>u a r. tst_get (data ?w) u = Request r \<longrightarrow>
        cancelled (requests (snd (fetchData ?w u a)) ! r) \<and>
        tst_get (data (snd (fetchData ?w u a))) u \<noteq> Request r"
    using fetchData_cancels [OF inv] by blast
  have C: "\<forall>r d. tst_get (data ?w) (req_uri (requests ?w ! r)) \<noteq> Request r \<longrightarrow>
        data (onResolved ?w r d) = data ?w"
    using onResolved_stale by blast
  have D: "\<forall>r d. r < length (requests ?w) \<and> \<not> settled (requests ?w ! r) \<and>
        tst_get (data ?w) (req_uri (requests ?w ! r)) = Request r \<longrightarrow>
        tst_get (data (onResolved ?w r d)) (req_uri (requests ?w ! r)) = item_of d"
    using onResolved_current by blast
  have E: "\<forall>r. r < length (requests ?w) \<and> cancelled (requests ?w ! r) \<longrightarrow>
        tst_get (data ?w) (req_uri (requests ?w ! r)) \<noteq> Request r"
    using stale by blast
  from A B C D E show ?thesis by (intro conjI) assumption+
qed

theorem fetch_at_most_one_in_flight_witness:
  "inFlight (dec_run [GetDecoration [''a''] False Async]) 0 \<and>
   tst_get (data (dec_run [GetDecoration [''a''] False Async])) [''a''] = Request 0 \<and>
   cancelled (requests (snd (fetchData (dec_run [GetDecoration [''a''] False Async]) [''a''] Async)) ! 0) \<and>
   tst_get (data (snd (fetchData (dec_run [GetDecoration [''a''] False Async]) [''a''] Async))) [''a'']
      = Request 1 \<and>
   data (onResolved (dec_run [GetDecoration [''a''] False Async, FetchData [''a''] Async]) 0 (Some \<lparr>weight = None, colorId = None, letter = Some ''M'', tooltip = None, bubble = None\<rparr>))
      = data (dec_run [GetDecoration [''a''] False Async, FetchData [''a''] Async])"
proof -
  let ?e1 = "[GetDecoration [''a''] False Async]"
  let ?e2 = "[GetDecoration [''a''] False Async, FetchData [''a''] Async]"
  have w1: "dec_run ?e1 = \<lparr>data = [([''a''], Request 0)],
      requests = [\<lparr>req_uri = [''a''], cancelled = False, settled = False\<rparr>]\<rparr>"
    by (simp add: dec_run_def new_wrapper_def getOrRetrieve_def fetchData_def cancelPending_def
        tst_get_def tst_set_def tst_delete_def Let_def)
  have m: "tst_get (data (dec_run ?e1)) [''a''] = Request 0"
    by (simp add: w1 tst_get_def)
  have f: "inFlight (dec_run ?e1) 0" by (simp add: w1 inFlight_def)
  from fetch_at_most_one_in_flight [of ?e1] m
  have c: "cancelled (requests (snd (fetchData (dec_run ?e1) [''a''] Async)) ! 0)"
    by blast
  have n: "tst_get (data (snd (fetchData (dec_run ?e1) [''a''] Async))) [''a''] = Request 1"
    by (simp add: w1 fetchData_def cancelPending_def tst_get_def tst_set_def tst_delete_def Let_def
        cancel_request_def)
  have w2: "dec_run ?e2 = snd (fetchData (dec_run ?e1) [''a''] Async)"
    by (simp add: dec_run_def)
  have "tst_get (data (dec_run ?e2)) (req_uri (requests (dec_run ?e2) ! 0)) \<noteq> Request 0"
    by (simp add: w2 w1 fetchData_def cancelPending_def tst_get_def tst_set_def tst_delete_def Let_def
        cancel_request_def)
  with fetch_at_most_one_in_flight [of ?e2]
  have s: "data (onResolved (dec_run ?e2) 0 (Some \<lparr>weight = None, colorId = None, letter = Some ''M'', tooltip = None, bubble = None\<rparr>)) = data (dec_run ?e2)"
    by blast
  from f m c n s show ?thesis by simp
qed

section \<open>Aggregation of decorations\<close>








lemma getOrRetrieve_throws:
  assumes "thrown w u a = Some e"
  shows "getOrRetrieve w u ic a = (Inl e, w)"
proof -
  from assms have "a = Throws e" "tst_get (data w) u = Undefined"
    by (auto simp: thrown_def split: answer.splits if_splits)
  then show ?thesis
    by (simp add: getOrRetrieve_def Let_def fetchData_def cancelPending_def)
qed

lemma kept_self:
  "map fst (filter keeps (case it of Deco d \<Rightarrow> [(d, False)] | _ \<Rightarrow> [])) =
     (case it of Deco d \<Rightarrow> [d] | _ \<Rightarrow> [])"
  by (simp add: keeps_def split: item.splits)

lemma kept_kids:
  "map fst (filter keeps (map (\<lambda>d. (d, True)) xs)) = filter (\<lambda>d. bubble d = Some True) xs"
  by (induction xs) (simp_all add: keeps_def)

lemma kept_callbacks:
  "map fst (filter keeps (callbacks it ic w u)) =
     (case it of Deco d \<Rightarrow> [d] | _ \<Rightarrow> []) @
     (if ic then filter (\<lambda>d. bubble d = Some True) (resolved_items (tst_findSuperstr (data w) u))
      else [])"
  by (simp add: callbacks_def kept_self kept_kids)


lemma getDecoration_cons:
  "getDecoration (w # ws) u ic as =
     (case fst (getOrRetrieve w u ic (case as of [] \<Rightarrow> Sync None | a # _ \<Rightarrow> a)) of
        Inl e \<Rightarrow> (Inl e, snd (getOrRetrieve w u ic (case as of [] \<Rightarrow> Sync None | a # _ \<Rightarrow> a)) # ws)
      | Inr calls \<Rightarrow>
          (case fst (getDecoration ws u ic (tl as)) of
             Inl e \<Rightarrow> Inl e
           | Inr rest \<Rightarrow> Inr (map fst (filter keeps calls) @ rest),
           snd (getOrRetrieve w u ic (case as of [] \<Rightarrow> Sync None | a # _ \<Rightarrow> a))
             # snd (getDecoration ws u ic (tl as))))"
  by (simp split: prod.splits sum.splits)









section \<open>What a call of getDecoration returns, starts and throws\<close>

lemma isSuperstr_irrefl: "\<not> isSuperstr u u"
  by (simp add: isSuperstr_def)

lemma findSuperstr_delete: "tst_findSuperstr (tst_delete t u) u = tst_findSuperstr t u"
proof -
  have "filter (\<lambda>p. isSuperstr u (fst p)) (filter (\<lambda>p. fst p \<noteq> u) t) =
        filter (\<lambda>p. isSuperstr u (fst p)) t"
    by (induction t) (auto simp: isSuperstr_irrefl)
  then show ?thesis by (simp add: tst_findSuperstr_def tst_delete_def)
qed

lemma findSuperstr_set: "tst_findSuperstr (tst_set t u v) u = tst_findSuperstr t u"
  using findSuperstr_delete [of t u]
  by (simp add: tst_findSuperstr_def tst_set_def isSuperstr_irrefl)

lemma cancelPending_absent: "tst_get (data w) u = Undefined \<Longrightarrow> cancelPending w u = w"
  by (simp add: cancelPending_def)

lemma getOrRetrieve_offers:
  assumes "thrown w u a = None"
  shows "\<exists>cs. fst (getOrRetrieve w u ic a) = Inr cs \<and> map fst (filter keeps cs) = offers w u ic a"
proof (cases "tst_get (data w) u = Undefined")
  case True
  show ?thesis
  proof (cases a)
    case (Sync d)
    with True show ?thesis
      by (cases d)
         (simp_all add: getOrRetrieve_def Let_def fetchData_def keepItem_def cancelPending_absent
            kept_callbacks findSuperstr_set offers_def own_offer_def item_of_def)
  next
    case Async
    with True show ?thesis
      by (simp add: getOrRetrieve_def Let_def fetchData_def cancelPending_absent
          kept_callbacks findSuperstr_set offers_def own_offer_def item_of_def)
  next
    case (Throws e)
    with True assms show ?thesis by (simp add: thrown_def)
  qed
next
  case False
  then show ?thesis
    by (cases "tst_get (data w) u")
       (simp_all add: getOrRetrieve_def Let_def kept_callbacks offers_def own_offer_def)
qed

lemma getDecoration_returns:
  "length as = length ws \<Longrightarrow> \<forall>(w, a) \<in> set (zip ws as). thrown w u a = None \<Longrightarrow>
   getDecoration ws u ic as =
     (Inr (concat (map (\<lambda>(w, a). offers w u ic a) (zip ws as))),
      map (\<lambda>(w, a). snd (getOrRetrieve w u ic a)) (zip ws as))"
proof (induction ws arbitrary: as)
  case Nil
  then show ?case by simp
next
  case (Cons w ws)
  from Cons.prems(1) obtain a as' where as: "as = a # as'" and len: "length as' = length ws"
    by (cases as) simp_all
  from Cons.prems(2) as have t: "thrown w u a = None"
    and rest: "\<forall>(w, a) \<in> set (zip ws as'). thrown w u a = None"
    by simp_all
  from getOrRetrieve_offers [OF t] obtain cs where
    cs: "fst (getOrRetrieve w u ic a) = Inr cs" "map fst (filter keeps cs) = offers w u ic a"
    by blast
  from Cons.IH [OF len rest] cs show ?case
    by (simp add: getDecoration_cons as del: getDecoration.simps)
qed

lemma getDecoration_throws:
  "i < length ws \<Longrightarrow> length as = length ws \<Longrightarrow>
   \<forall>j < i. thrown (ws ! j) u (as ! j) = None \<Longrightarrow> thrown (ws ! i) u (as ! i) = Some e \<Longrightarrow>
   getDecoration ws u ic as =
     (Inl e, map (\<lambda>(w, a). snd (getOrRetrieve w u ic a)) (zip (take i ws) (take i as)) @ drop i ws)"
proof (induction ws arbitrary: as i)
  case Nil
  then show ?case by simp
next
  case (Cons w ws)
  from Cons.prems(2) obtain a as' where as: "as = a # as'" and len: "length as' = length ws"
    by (cases as) simp_all
  show ?case
  proof (cases i)
    case 0
    with Cons.prems(4) as have "thrown w u a = Some e" by simp
    from getOrRetrieve_throws [OF this] 0 show ?thesis
      by (simp add: getDecoration_cons as del: getDecoration.simps)
  next
    case (Suc k)
    with Cons.prems(1) have k: "k < length ws" by simp
    from Cons.prems(3) Suc as have t: "thrown w u a = None" by auto
    from Cons.prems(3) Suc as have before: "\<forall>j < k. thrown (ws ! j) u (as' ! j) = None" by auto
    from Cons.prems(4) Suc as have at: "thrown (ws ! k) u (as' ! k) = Some e" by simp
    from getOrRetrieve_offers [OF t] obtain cs where
      cs: "fst (getOrRetrieve w u ic a) = Inr cs" by blast
    from Cons.IH [OF k len before at] cs Suc show ?thesis
      by (simp add: getDecoration_cons as del: getDecoration.simps)
  qed
qed

lemma getOrRetrieve_pending:
  "tst_get (data w) u = Request r \<Longrightarrow> own_offer w u a = [] \<and> snd (getOrRetrieve w u ic a) = w"
  by (simp add: own_offer_def snd_getOrRetrieve)

lemma getOrRetrieve_absent_async:
  assumes "tst_get (data w) u = Undefined"
  shows "snd (getOrRetrieve w u ic Async) =
           w\<lparr>requests := requests w @ [\<lparr>req_uri = u, cancelled = False, settled = False\<rparr>],
             data := tst_set (data w) u (Request (length (requests w)))\<rparr>"
  using assms by (simp add: snd_getOrRetrieve fetchData_def cancelPending_absent Let_def)

lemma getOrRetrieve_starts:
  assumes "tst_get (data w) u = Undefined"
  shows "own_offer w u Async = [] \<and>
         tst_get (data (snd (getOrRetrieve w u ic Async))) u = Request (length (requests w)) \<and>
         inFlight (snd (getOrRetrieve w u ic Async)) (length (requests w))"
  unfolding getOrRetrieve_absent_async [OF assms]
  using assms by (simp add: own_offer_def tst_get_set inFlight_def)

lemma getDecoration_later:
  assumes "tst_get (data w) u = Undefined"
  shows "getDecoration
           [onResolved (snd (getOrRetrieve w u ic Async)) (length (requests w)) (Some d)] u False [a'] =
         (Inr [d], [onResolved (snd (getOrRetrieve w u ic Async)) (length (requests w)) (Some d)])"
proof -
  define w2 where "w2 = onResolved (snd (getOrRetrieve w u ic Async)) (length (requests w)) (Some d)"
  have d: "tst_get (data w2) u = Deco d"
    unfolding w2_def getOrRetrieve_absent_async [OF assms]
    by (simp add: onResolved_def Let_def keepItem_def tst_get_set item_of_def mark_settled_def)
  then have "getDecoration [w2] u False [a'] = (Inr [d], [w2])"
    by (simp add: getOrRetrieve_def Let_def callbacks_def keeps_def)
  then show ?thesis by (simp only: w2_def)
qed

text \<open>
  A provider that throws when asked: the call with an empty cache throws what the
  provider threw.
\<close>

theorem getDecoration_throws_counterexample:
  "fst (getDecoration [new_wrapper] [''a''] False
          [Throws \<lparr>instanceofError = True, err_name = ''Error'', err_message = ''boom''\<rparr>])
   = Inl \<lparr>instanceofError = True, err_name = ''Error'', err_message = ''boom''\<rparr>"
  by (simp add: getOrRetrieve_def fetchData_def cancelPending_def new_wrapper_def tst_get_def)

text \<open>
  C10, as the code has it.  \<^verbatim>\<open>getDecoration\<close> is a function of the caches and of what
  the providers do when asked during the call; it awaits nothing.  A provider is asked
  exactly when its wrapper's slot for the URI is empty.  When no provider that is asked
  throws, the call returns, wrapper by wrapper in order, exactly this: for the URI itself
  the decoration already resolved in the slot, or the one the provider hands back at
  once, and nothing for a slot that holds a request or whose provider answers with a
  thenable (or with \<^verbatim>\<open>undefined\<close>); and, with \<^verbatim>\<open>includeChildren\<close>, the bubbling
  resolved decorations filed strictly below.  When a provider that is asked throws, the
  call throws what the first such provider threw; the wrappers before it have been
  served, the others are as they were.  A slot that holds a request leaves its wrapper as
  it is.  An empty slot whose provider answers with a thenable holds a fresh request in
  flight afterwards, and once that request resolves with a decoration a later call
  returns it.
\<close>

theorem getDecoration_call:
  "length as = length ws \<Longrightarrow>
   ((\<forall>(w, a) \<in> set (zip ws as). thrown w u a = None) \<longrightarrow>
      getDecoration ws u ic as =
        (Inr (concat (map (\<lambda>(w, a). offers w u ic a) (zip ws as))),
         map (\<lambda>(w, a). snd (getOrRetrieve w u ic a)) (zip ws as))) \<and>
   (\<forall>i e. i < length ws \<and> (\<forall>j < i. thrown (ws ! j) u (as ! j) = None) \<and>
          thrown (ws ! i) u (as ! i) = Some e \<longrightarrow>
      getDecoration ws u ic as =
        (Inl e,
         map (\<lambda>(w, a). snd (getOrRetrieve w u ic a)) (zip (take i ws) (take i as)) @ drop i ws)) \<and>
   (\<forall>w a r. tst_get (data w) u = Request r \<longrightarrow>
      own_offer w u a = [] \<and> snd (getOrRetrieve w u ic a) = w) \<and>
   (\<forall>w d a'. tst_get (data w) u = Undefined \<longrightarrow>
      own_offer w u Async = [] \<and>
      tst_get (data (snd (getOrRetrieve w u ic Async))) u = Request (length (requests w)) \<and>
      inFlight (snd (getOrRetrieve w u ic Async)) (length (requests w)) \<and>
      getDecoration
        [onResolved (snd (getOrRetrieve w u ic Async)) (length (requests w)) (Some d)] u False [a'] =
        (Inr [d], [onResolved (snd (getOrRetrieve w u ic Async)) (length (requests w)) (Some d)]))"
proof -
  assume len: "length as = length ws"
  have A: "(\<forall>(w, a) \<in> set (zip ws as). thrown w u a = None) \<longrightarrow>
      getDecoration ws u ic as =
        (Inr (concat (map (\<lambda>(w, a). offers w u ic a) (zip ws as))),
         map (\<lambda>(w, a). snd (getOrRetrieve w u ic a)) (zip ws as))"
    using getDecoration_returns [OF len] by blast
  have B: "\<forall>i e. i < length ws \<and> (\<forall>j < i. thrown (ws ! j) u (as ! j) = None) \<and>
          thrown (ws ! i) u (as ! i) = Some e \<longrightarrow>
      getDecoration ws u ic as =
        (Inl e,
         map (\<lambda>(w, a). snd (getOrRetrieve w u ic a)) (zip (take i ws) (take i as)) @ drop i ws)"
    using getDecoration_throws [OF _ len] by blast
  have C: "\<forall>w a r. tst_get (data w) u = Request r \<longrightarrow>
      own_offer w u a = [] \<and> snd (getOrRetrieve w u ic a) = w"
    using getOrRetrieve_pending by blast
  have D: "\<forall>w d a'. tst_get (data w) u = Undefined \<longrightarrow>
      own_offer w u Async = [] \<and>
      tst_get (data (snd (getOrRetrieve w u ic Async))) u = Request (length (requests w)) \<and>
      inFlight (snd (getOrRetrieve w u ic Async)) (length (requests w)) \<and>
      getDecoration
        [onResolved (snd (getOrRetrieve w u ic Async)) (length (requests w)) (Some d)] u False [a'] =
        (Inr [d], [onResolved (snd (getOrRetrieve w u ic Async)) (length (requests w)) (Some d)])"
    using getOrRetrieve_starts getDecoration_later by blast
  from A B C D show ?thesis by (intro conjI) assumption+
qed

theorem getDecoration_call_witness:
  "fst (getDecoration
          [new_wrapper,
           \<lparr>data = [([''a''], Request 0)],
            requests = [\<lparr>req_uri = [''a''], cancelled = False, settled = False\<rparr>]\<rparr>,
           new_wrapper]
          [''a''] False
          [Sync (Some \<lparr>weight = None, colorId = None, letter = Some ''M'', tooltip = None, bubble = None\<rparr>),
           Throws \<lparr>instanceofError = True, err_name = ''Error'', err_message = ''boom''\<rparr>,
           Async])
     = Inr [\<lparr>weight = None, colorId = None, letter = Some ''M'', tooltip = None, bubble = None\<rparr>] \<and>
   snd (getDecoration
          [new_wrapper,
           \<lparr>data = [([''a''], Request 0)],
            requests = [\<lparr>req_uri = [''a''], cancelled = False, settled = False\<rparr>]\<rparr>,
           new_wrapper]
          [''a''] False
          [Sync (Some \<lparr>weight = None, colorId = None, letter = Some ''M'', tooltip = None, bubble = None\<rparr>),
           Throws \<lparr>instanceofError = True, err_name = ''Error'', err_message = ''boom''\<rparr>,
           Async])
     = [\<lparr>data = [([''a''], Deco \<lparr>weight = None, colorId = None, letter = Some ''M'', tooltip = None,
                                  bubble = None\<rparr>)], requests = []\<rparr>,
        \<lparr>data = [([''a''], Request 0)],
         requests = [\<lparr>req_uri = [''a''], cancelled = False, settled = False\<rparr>]\<rparr>,
        \<lparr>data = [([''a''], Request 0)],
         requests = [\<lparr>req_uri = [''a''], cancelled = False, settled = False\<rparr>]\<rparr>] \<and>
   getDecoration [new_wrapper, new_wrapper] [''a''] False
     [Sync (Some \<lparr>weight = None, colorId = None, letter = Some ''M'', tooltip = None, bubble = None\<rparr>),
      Throws \<lparr>instanceofError = True, err_name = ''Error'', err_message = ''boom''\<rparr>]
     = (Inl \<lparr>instanceofError = True, err_name = ''Error'', err_message = ''boom''\<rparr>,
        [\<lparr>data = [([''a''], Deco \<lparr>weight = None, colorId = None, letter = Some ''M'', tooltip = None,
                                  bubble = None\<rparr>)], requests = []\<rparr>,
         new_wrapper]) \<and>
   inFlight (snd (getOrRetrieve new_wrapper [''a''] False Async)) 0 \<and>
   getDecoration
     [onResolved (snd (getOrRetrieve new_wrapper [''a''] False Async)) 0
        (Some \<lparr>weight = None, colorId = None, letter = Some ''M'', tooltip = None, bubble = None\<rparr>)]
     [''a''] False [Async]
     = (Inr [\<lparr>weight = None, colorId = None, letter = Some ''M'', tooltip = None, bubble = None\<rparr>],
        [onResolved (snd (getOrRetrieve new_wrapper [''a''] False Async)) 0
           (Some \<lparr>weight = None, colorId = None, letter = Some ''M'', tooltip = None, bubble = None\<rparr>)])"
proof -
  let ?M = "\<lparr>weight = None, colorId = None, letter = Some ''M'', tooltip = None, bubble = None\<rparr>"
  let ?boom = "\<lparr>instanceofError = True, err_name = ''Error'', err_message = ''boom''\<rparr>"
  let ?p = "\<lparr>data = [([''a''], Request 0)],
             requests = [\<lparr>req_uri = [''a''], cancelled = False, settled = False\<rparr>]\<rparr>"
  let ?ws = "[new_wrapper, ?p, new_wrapper]"
  let ?as = "[Sync (Some ?M), Throws ?boom, Async]"
  have e: "tst_get (data new_wrapper) [''a''] = Undefined"
    by (simp add: new_wrapper_def tst_get_def)
  have p: "tst_get (data ?p) [''a''] = Request 0" by (simp add: tst_get_def)
  have l0: "length (requests new_wrapper) = 0" by (simp add: new_wrapper_def)
  have nt: "\<forall>(w, a) \<in> set (zip ?ws ?as). thrown w [''a''] a = None"
    by (simp add: thrown_def tst_get_def)
  have s1: "snd (getOrRetrieve new_wrapper [''a''] False (Sync (Some ?M))) =
      \<lparr>data = [([''a''], Deco ?M)], requests = []\<rparr>"
    by (simp add: snd_getOrRetrieve snd_fetchData_Sync cancelPending_def keepItem_def
        item_of_def new_wrapper_def tst_get_def tst_set_def tst_delete_def)
  have s2: "snd (getOrRetrieve new_wrapper [''a''] False Async) = ?p"
    unfolding getOrRetrieve_absent_async [OF e]
    by (simp add: new_wrapper_def tst_set_def tst_delete_def)
  have s3: "snd (getOrRetrieve ?p [''a''] False (Throws ?boom)) = ?p"
    by (simp add: snd_getOrRetrieve tst_get_def)
  note th1 = getDecoration_call [where ws = ?ws and as = ?as and u = "[''a'']" and ic = False]
  from th1 [THEN conjunct1] nt
  have r1: "getDecoration ?ws [''a''] False ?as =
      (Inr (concat (map (\<lambda>(w, a). offers w [''a''] False a) (zip ?ws ?as))),
       map (\<lambda>(w, a). snd (getOrRetrieve w [''a''] False a)) (zip ?ws ?as))"
    by simp
  have A1: "fst (getDecoration ?ws [''a''] False ?as) = Inr [?M]"
    unfolding r1 by (simp add: offers_def own_offer_def new_wrapper_def tst_get_def)
  have A2: "snd (getDecoration ?ws [''a''] False ?as) = [\<lparr>data = [([''a''], Deco ?M)], requests = []\<rparr>, ?p, ?p]"
    unfolding r1 by (simp add: s1 s2 s3)
  note th2 = getDecoration_call [where ws = "[new_wrapper, new_wrapper]"
      and as = "[Sync (Some ?M), Throws ?boom]" and u = "[''a'']" and ic = False]
  have t0: "\<forall>j < Suc 0. thrown ([new_wrapper, new_wrapper] ! j) [''a'']
      ([Sync (Some ?M), Throws ?boom] ! j) = None"
    by (simp add: thrown_def)
  have t1: "thrown ([new_wrapper, new_wrapper] ! Suc 0) [''a'']
      ([Sync (Some ?M), Throws ?boom] ! Suc 0) = Some ?boom"
    by (simp add: thrown_def e)
  from th2 [THEN conjunct2, THEN conjunct1, THEN spec, THEN spec, of "Suc 0" ?boom] t0 t1
  have "getDecoration [new_wrapper, new_wrapper] [''a''] False [Sync (Some ?M), Throws ?boom] =
      (Inl ?boom,
       map (\<lambda>(w, a). snd (getOrRetrieve w [''a''] False a))
         (zip (take (Suc 0) [new_wrapper, new_wrapper]) (take (Suc 0) [Sync (Some ?M), Throws ?boom]))
       @ drop (Suc 0) [new_wrapper, new_wrapper])"
    by simp
  then have B: "getDecoration [new_wrapper, new_wrapper] [''a''] False [Sync (Some ?M), Throws ?boom] =
      (Inl ?boom, [\<lparr>data = [([''a''], Deco ?M)], requests = []\<rparr>, new_wrapper])"
    by (simp add: s1)
  from th1 [THEN conjunct2, THEN conjunct2, THEN conjunct2, THEN spec, THEN spec, THEN spec,
      of new_wrapper ?M Async] e
  have D: "inFlight (snd (getOrRetrieve new_wrapper [''a''] False Async)) 0"
    "getDecoration [onResolved (snd (getOrRetrieve new_wrapper [''a''] False Async)) 0 (Some ?M)]
       [''a''] False [Async] =
     (Inr [?M], [onResolved (snd (getOrRetrieve new_wrapper [''a''] False Async)) 0 (Some ?M)])"
    by (simp_all add: l0)
  from A1 A2 B D show ?thesis by (intro conjI) assumption+
qed

section \<open>Root validation in setChildren\<close>

lemma getRootNode_cong:
  "(\<And>a. parent (h a) = parent (h' a)) \<Longrightarrow> getRootNode f h a = getRootNode f h' a"
  by (induction f arbitrary: a) (simp_all split: option.splits)

lemma doSetBusy_fields:
  "parent (heap (doSetBusy p t) a) = parent (heap t a)"
  "nid (heap (doSetBusy p t) a) = nid (heap t a)"
  "children (heap (doSetBusy p t) a) = children (heap t a)"
  "nodes (doSetBusy p t) = nodes t"
  "root (doSetBusy p t) = root t"
  by (simp_all add: doSetBusy_def Let_def)

lemma doResetBusy_fields:
  "parent (heap (doResetBusy p t) a) = parent (heap t a)"
  "nid (heap (doResetBusy p t) a) = nid (heap t a)"
  "children (heap (doResetBusy p t) a) = children (heap t a)"
  "nodes (doResetBusy p t) = nodes t"
  "root (doResetBusy p t) = root t"
  by (simp_all add: doResetBusy_def Let_def)

lemma store_get_fields:
  assumes "nodes t' = nodes t" "proto t' = proto t"
    and "nodes t k \<noteq> None \<or> proto t = None \<or> heap t' = heap t"
  shows "store_get t' k = store_get t k"
  using assms by (auto simp: store_get_def split: option.splits)

lemma doSetBusy_proto: "proto (doSetBusy p t) = proto t"
  by (simp add: doSetBusy_def Let_def)

lemma doResetBusy_proto: "proto (doResetBusy p t) = proto t"
  by (simp add: doResetBusy_def Let_def)

lemma setChildren_rejects:
  assumes "getRootNode f (heap t) p = Some r" "truthy (store_get t (nid (heap t r)))"
    "store_get t (nid (heap t r)) \<noteq> Found r"
  shows "setChildren f p cs t =
           Some (None, t\<lparr>fired := fired t @
                  [ConsoleError (belongs_message (nid (heap t p)) (nid (heap t r)))]\<rparr>)"
  using assms by (simp add: setChildren_def)

text \<open>
  C7.  Let \<^verbatim>\<open>setChildren\<close> target a node whose parent chain ends in an object \<open>r\<close>
  while what the Node Store answers for \<open>r\<close>'s id is truthy and is not \<open>r\<close>: another
  object filed under that id, or a value the store inherits under that key.  Then it
  returns, its result is \<^verbatim>\<open>undefined\<close>, and the tree afterwards is the tree before with
  one \<^verbatim>\<open>console.error\<close> entry more: no node is removed from or added to the Node Store
  and no \<^verbatim>\<open>children\<close> array changes.  A \<^verbatim>\<open>refresh\<close> of that node returns
  \<^verbatim>\<open>undefined\<close> too, with the Node Store, the root and every \<^verbatim>\<open>children\<close> array
  as they were; this is stated for an answer that the busy marker of the refresh cannot
  change: an object filed under the id, or a store whose prototype is still
  \<^verbatim>\<open>Object.prototype\<close>, or a marker whose timer has not run out.
\<close>

theorem setChildren_foreign_root:
  assumes "getRootNode f (heap t) p = Some r" "truthy (store_get t (nid (heap t r)))"
    "store_get t (nid (heap t r)) \<noteq> Found r"
  shows "setChildren f p cs t =
           Some (None, t\<lparr>fired := fired t @
                  [ConsoleError (belongs_message (nid (heap t p)) (nid (heap t r)))]\<rparr>) \<and>
         (validateNode t (Some raw) = Found p \<and> CompositeTreeNode_is (heap t) p \<and>
          (nodes t (nid (heap t r)) \<noteq> None \<or> proto t = None \<or> \<not> busyElapsed) \<longrightarrow>
            (\<exists>t'. refresh f (Some raw) tok busyElapsed resolveChildren t = Some (None, t') \<and>
                  nodes t' = nodes t \<and> proto t' = proto t \<and>
                  (\<forall>a. children (heap t' a) = children (heap t a)) \<and>
                  root t' = root t))"
proof (intro conjI impI)
  show "setChildren f p cs t =
           Some (None, t\<lparr>fired := fired t @
                  [ConsoleError (belongs_message (nid (heap t p)) (nid (heap t r)))]\<rparr>)"
    using assms by (rule setChildren_rejects)
next
  assume v: "validateNode t (Some raw) = Found p \<and> CompositeTreeNode_is (heap t) p \<and>
          (nodes t (nid (heap t r)) \<noteq> None \<or> proto t = None \<or> \<not> busyElapsed)"
  define t2 where "t2 = (if busyElapsed then doSetBusy p t else t)"
  have g: "getRootNode f (heap t2) p = Some r"
    using assms(1) getRootNode_cong [of "heap t2" "heap t" f p]
    by (simp add: t2_def doSetBusy_fields)
  have same: "nodes t2 = nodes t" "root t2 = root t" "proto t2 = proto t"
    "\<And>a. children (heap t2 a) = children (heap t a)"
    by (simp_all add: t2_def doSetBusy_fields doSetBusy_proto)
  from v have "nodes t (nid (heap t r)) \<noteq> None \<or> proto t = None \<or> heap t2 = heap t"
    by (auto simp: t2_def)
  from store_get_fields [OF same(1) same(3) this]
  have sg0: "store_get t2 (nid (heap t r)) = store_get t (nid (heap t r))" .
  have "nid (heap t2 r) = nid (heap t r)" by (simp add: t2_def doSetBusy_fields)
  with sg0 have sg: "store_get t2 (nid (heap t2 r)) = store_get t (nid (heap t r))"
    by (simp only:)
  from assms(2,3) sg have n: "truthy (store_get t2 (nid (heap t2 r)))"
    "store_get t2 (nid (heap t2 r)) \<noteq> Found r"
    by simp_all
  note sc = setChildren_rejects [OF g n, of "children_of (heap t) p"]
  from v have tg: "refresh_target t (Some raw) = Found p" by (simp add: refresh_target_def)
  show "\<exists>t'. refresh f (Some raw) tok busyElapsed resolveChildren t = Some (None, t') \<and>
                  nodes t' = nodes t \<and> proto t' = proto t \<and>
                  (\<forall>a. children (heap t' a) = children (heap t a)) \<and>
                  root t' = root t"
  proof (cases "case tok of None \<Rightarrow> False | Some (c1, c2) \<Rightarrow> c1")
    case True
    with v tg have "refresh f (Some raw) tok busyElapsed resolveChildren t = Some (None, doResetBusy p t2)"
      by (simp add: refresh_def resolveChildren_def t2_def)
    then show ?thesis by (simp add: doResetBusy_fields doResetBusy_proto same)
  next
    case False
    let ?t3 = "t2\<lparr>fired := fired t2 @ [ConsoleError (belongs_message (nid (heap t2 p)) (nid (heap t2 r)))]\<rparr>"
    from False v tg sc
    have "refresh f (Some raw) tok busyElapsed resolveChildren t =
            Some (None, if (case tok of None \<Rightarrow> False | Some (c1, c2) \<Rightarrow> c2)
                        then doResetBusy p ?t3 else fireChanged (doResetBusy p ?t3))"
      by (simp add: refresh_def resolveChildren_def t2_def)
    then show ?thesis by (simp add: doResetBusy_fields doResetBusy_proto same fireChanged_def)
  qed
qed

lemma example_heap_simps:
  "example_heap 0 = (blank_node ''root'')\<lparr>children := Some [1, 2], expanded := Some True\<rparr>"
  "example_heap (Suc 0) = (blank_node ''dir1'')\<lparr>children := Some [3], selected := Some False,
                                    expanded := Some True\<rparr>"
  "example_heap 2 = (blank_node ''dir2'')\<lparr>selected := Some False\<rparr>"
  "example_heap 3 = (blank_node ''file1'')\<lparr>selected := Some False\<rparr>"
  "example_heap 4 = (blank_node ''root'')\<lparr>children := Some []\<rparr>"
  by (simp_all add: example_heap_def)

text \<open>
  Object 4 carries the id \<^verbatim>\<open>root\<close> while the store files object 0 under it; and an
  object with the id \<^verbatim>\<open>constructor\<close> in a store that files nothing.
\<close>

theorem setChildren_foreign_root_witness:
  "getRootNode 2 (heap (example_tree\<lparr>nodes := [''root'' \<mapsto> 0]\<rparr>)) 4 = Some 4 \<and>
   store_get (example_tree\<lparr>nodes := [''root'' \<mapsto> 0]\<rparr>)
     (nid (heap (example_tree\<lparr>nodes := [''root'' \<mapsto> 0]\<rparr>) 4)) = Found 0 \<and>
   setChildren 2 4 [3] (example_tree\<lparr>nodes := [''root'' \<mapsto> 0]\<rparr>) =
     Some (None, example_tree\<lparr>nodes := [''root'' \<mapsto> 0],
        fired := [ConsoleError (belongs_message ''root'' ''root'')]\<rparr>) \<and>
   store_get (example_tree\<lparr>heap := example_heap(4 := (example_heap 4)\<lparr>nid := ''constructor''\<rparr>)\<rparr>)
     ''constructor'' = Other (Builtin ''constructor'') \<and>
   setChildren 2 4 [3]
     (example_tree\<lparr>heap := example_heap(4 := (example_heap 4)\<lparr>nid := ''constructor''\<rparr>)\<rparr>) =
     Some (None, example_tree\<lparr>heap := example_heap(4 := (example_heap 4)\<lparr>nid := ''constructor''\<rparr>),
        fired := [ConsoleError (belongs_message ''constructor'' ''constructor'')]\<rparr>)"
proof -
  let ?t = "example_tree\<lparr>nodes := [''root'' \<mapsto> 0]\<rparr>"
  let ?c = "example_tree\<lparr>heap := example_heap(4 := (example_heap 4)\<lparr>nid := ''constructor''\<rparr>)\<rparr>"
  have g: "getRootNode 2 (heap ?t) 4 = Some 4"
    by (simp add: example_tree_def example_heap_simps blank_node_def numeral_2_eq_2)
  have n: "store_get ?t (nid (heap ?t 4)) = Found 0"
    by (simp add: store_get_def example_tree_def example_heap_simps blank_node_def)
  then have n1: "truthy (store_get ?t (nid (heap ?t 4)))"
    and n2: "store_get ?t (nid (heap ?t 4)) \<noteq> Found 4"
    by simp_all
  from setChildren_foreign_root [OF g n1 n2, of "[3]", THEN conjunct1]
  have A: "setChildren 2 4 [3] ?t =
     Some (None, example_tree\<lparr>nodes := [''root'' \<mapsto> 0],
        fired := [ConsoleError (belongs_message ''root'' ''root'')]\<rparr>)"
    by (simp add: example_tree_def example_heap_simps blank_node_def)
  have g': "getRootNode 2 (heap ?c) 4 = Some 4"
    by (simp add: example_tree_def example_heap_simps blank_node_def numeral_2_eq_2)
  have i: "nid (heap ?c 4) = ''constructor''" by (simp add: example_tree_def)
  have m: "store_get ?c ''constructor'' = Other (Builtin ''constructor'')"
    by (simp add: store_get_def example_tree_def object_prototype_def object_prototype_keys_def)
  then have m1: "truthy (store_get ?c (nid (heap ?c 4)))"
    and m2: "store_get ?c (nid (heap ?c 4)) \<noteq> Found 4"
    by (simp_all add: i)
  from setChildren_foreign_root [OF g' m1 m2, of "[3]", THEN conjunct1]
  have B: "setChildren 2 4 [3] ?c =
     Some (None, example_tree\<lparr>heap := example_heap(4 := (example_heap 4)\<lparr>nid := ''constructor''\<rparr>),
        fired := [ConsoleError (belongs_message ''constructor'' ''constructor'')]\<rparr>)"
    by (simp add: example_tree_def example_heap_simps blank_node_def)
  from g n A m B show ?thesis by (intro conjI) assumption+
qed

section \<open>Busy count\<close>

lemma busy_doSetBusy:
  "busy_or_0 (heap (doSetBusy a t) b) = (if b = a then busy_or_0 (heap t a) + 1 else busy_or_0 (heap t b))"
  by (simp add: doSetBusy_def Let_def busy_or_0_def)

lemma busy_doResetBusy:
  "busy_or_0 (heap (doResetBusy a t) b) =
     (if b = a \<and> 0 < busy_or_0 (heap t a) then busy_or_0 (heap t a) - 1 else busy_or_0 (heap t b))"
  by (simp add: doResetBusy_def Let_def busy_or_0_def)

lemma fired_doSetBusy:
  "fired (doSetBusy a t) = fired t @ (if busy_or_0 (heap t a) = 0 then [DidChangeBusy a] else [])"
  by (simp add: doSetBusy_def Let_def)

lemma fired_doResetBusy:
  "fired (doResetBusy a t) = fired t @ (if busy_or_0 (heap t a) = 1 then [DidChangeBusy a] else [])"
  by (auto simp: doResetBusy_def Let_def)

lemma busy_nonneg_step: "busy_nonneg (btree s) \<Longrightarrow> busy_nonneg (btree (busy_step s e))"
  by (cases e) (auto simp: busy_nonneg_def busy_doSetBusy busy_doResetBusy)

lemma busy_nonneg_foldl: "busy_nonneg (btree s) \<Longrightarrow> busy_nonneg (btree (foldl busy_step s es))"
  by (induction es arbitrary: s) (simp_all add: busy_nonneg_step)

lemma busy_nonneg_run: "busy_nonneg t \<Longrightarrow> busy_nonneg (btree (busy_run es t))"
  by (simp add: busy_run_def busy_nonneg_foldl)

lemma busy_step_elapsed:
  "acts_on s (TimerElapsed m) = Some a \<Longrightarrow>
   busy_or_0 (heap (btree (busy_step s (TimerElapsed m))) a) = busy_or_0 (heap (btree s) a) + 1"
  by (auto simp: acts_on_def busy_doSetBusy split: if_splits)

lemma busy_step_cancelled:
  "acts_on s (TokenCancelled m) = Some a \<Longrightarrow>
   busy_or_0 (heap (btree (busy_step s (TokenCancelled m))) a) =
     (if 0 < busy_or_0 (heap (btree s) a) then busy_or_0 (heap (btree s) a) - 1 else busy_or_0 (heap (btree s) a))"
  by (auto simp: acts_on_def busy_doResetBusy split: if_splits)

lemma busy_step_idle:
  "acts_on s e = None \<Longrightarrow> btree (busy_step s e) = btree s"
  by (cases e) (auto simp: acts_on_def split: if_splits)

lemma busy_step_fired:
  assumes "busy_nonneg (btree s)"
  shows "fired (btree (busy_step s e)) = fired (btree s) @
     (case acts_on s e of
        None \<Rightarrow> []
      | Some a \<Rightarrow> if (busy_or_0 (heap (btree s) a) = 0) \<noteq> (busy_or_0 (heap (btree (busy_step s e)) a) = 0)
                  then [DidChangeBusy a] else [])"
proof (cases "acts_on s e")
  case None
  then show ?thesis by (simp add: busy_step_idle)
next
  case (Some a)
  from assms have nn: "0 \<le> busy_or_0 (heap (btree s) a)" by (simp add: busy_nonneg_def)
  show ?thesis
  proof (cases e)
    case (Mark b)
    with Some show ?thesis by (simp add: acts_on_def)
  next
    case (TimerElapsed m)
    with Some have m: "m < length (markers s)" "snd (markers s ! m) = Waiting" "fst (markers s ! m) = a"
      by (auto simp: acts_on_def split: if_splits)
    with nn Some TimerElapsed show ?thesis
      by (simp add: busy_doSetBusy fired_doSetBusy)
  next
    case (TokenCancelled m)
    with Some have m: "m < length (markers s)" "snd (markers s ! m) \<noteq> Cancelled" "fst (markers s ! m) = a"
      by (auto simp: acts_on_def split: if_splits)
    with nn Some TokenCancelled show ?thesis
      by (simp add: busy_doResetBusy fired_doResetBusy)
  qed
qed

lemma two_markers_busy:
  assumes "busy_or_0 (heap t a) = 0" "800 \<le> tA"
  shows "busy_or_0 (heap (btree (at_time (two_markers a tA) t now)) a) =
           (if 800 \<le> now \<and> now < tA then 1 else 0) \<and>
         fired (btree (at_time (two_markers a tA) t now)) = fired t @
           (if now < 800 then [] else if now < tA then [DidChangeBusy a]
            else [DidChangeBusy a, DidChangeBusy a])"
proof -
  consider "now < 400" | "400 \<le> now" "now < 800" | "800 \<le> now" "now < tA" | "tA \<le> now"
    by linarith
  then show ?thesis
  proof cases
    case 1
    with assms show ?thesis
      by (simp add: at_time_def two_markers_def busy_run_def)
  next
    case 2
    with assms show ?thesis
      by (simp add: at_time_def two_markers_def busy_run_def busy_doResetBusy fired_doResetBusy)
  next
    case 3
    with assms show ?thesis
      by (simp add: at_time_def two_markers_def busy_run_def busy_doResetBusy fired_doResetBusy
          busy_doSetBusy fired_doSetBusy)
  next
    case 4
    with assms show ?thesis
      by (simp add: at_time_def two_markers_def busy_run_def busy_doResetBusy fired_doResetBusy
          busy_doSetBusy fired_doSetBusy)
  qed
qed

text \<open>
  C4.  Start from a tree in which no busy count is negative, and let any markers be
  started, run out and be cancelled in any order.  The count of every node stays a number
  that is at least 0.  A timer that runs out on a waiting marker adds 1 to its node's
  count.  A cancellation takes 1 off a positive count and leaves a count of 0 at 0.
  A step fires \<^verbatim>\<open>onDidChangeBusy\<close> for its node exactly when the count was 0 before
  and is not after, or was not 0 before and is after, and fires nothing else.
  With two markers on a node that is not busy, both started at time 0 with 800 ms, marker
  B cancelled at 400 and marker A cancelled at some time from 800 on: the node's count is
  1 from 800 until A is cancelled and 0 at all other times, and the event fires twice,
  at 800 and when A is cancelled.
\<close>

theorem busy_reference_count:
  assumes "busy_nonneg t"
  shows "(\<forall>b. 0 \<le> busy_or_0 (heap (btree (busy_run es t)) b)) \<and>
         (\<forall>m b. acts_on (busy_run es t) (TimerElapsed m) = Some b \<longrightarrow>
            busy_or_0 (heap (btree (busy_step (busy_run es t) (TimerElapsed m))) b) =
              busy_or_0 (heap (btree (busy_run es t)) b) + 1) \<and>
         (\<forall>m b. acts_on (busy_run es t) (TokenCancelled m) = Some b \<longrightarrow>
            busy_or_0 (heap (btree (busy_step (busy_run es t) (TokenCancelled m))) b) =
              (if 0 < busy_or_0 (heap (btree (busy_run es t)) b)
               then busy_or_0 (heap (btree (busy_run es t)) b) - 1 else 0)) \<and>
         (\<forall>e. fired (btree (busy_step (busy_run es t) e)) = fired (btree (busy_run es t)) @
            (case acts_on (busy_run es t) e of
               None \<Rightarrow> []
             | Some b \<Rightarrow>
                 if (busy_or_0 (heap (btree (busy_run es t)) b) = 0) \<noteq>
                    (busy_or_0 (heap (btree (busy_step (busy_run es t) e)) b) = 0)
                 then [DidChangeBusy b] else [])) \<and>
         (busy_or_0 (heap t a) = 0 \<and> 800 \<le> tA \<longrightarrow>
            (\<forall>now.
               busy_or_0 (heap (btree (at_time (two_markers a tA) t now)) a) =
                 (if 800 \<le> now \<and> now < tA then 1 else 0) \<and>
               fired (btree (at_time (two_markers a tA) t now)) = fired t @
                 (if now < 800 then [] else if now < tA then [DidChangeBusy a]
                  else [DidChangeBusy a, DidChangeBusy a])))"
proof -
  let ?s = "busy_run es t"
  have nn: "busy_nonneg (btree ?s)" using assms by (rule busy_nonneg_run)
  have A: "\<forall>b. 0 \<le> busy_or_0 (heap (btree ?s) b)"
    using nn by (simp add: busy_nonneg_def)
  have B: "\<forall>m b. acts_on ?s (TimerElapsed m) = Some b \<longrightarrow>
            busy_or_0 (heap (btree (busy_step ?s (TimerElapsed m))) b) = busy_or_0 (heap (btree ?s) b) + 1"
    using busy_step_elapsed by blast
  have C: "\<forall>m b. acts_on ?s (TokenCancelled m) = Some b \<longrightarrow>
            busy_or_0 (heap (btree (busy_step ?s (TokenCancelled m))) b) =
              (if 0 < busy_or_0 (heap (btree ?s) b) then busy_or_0 (heap (btree ?s) b) - 1 else 0)"
  proof (intro allI impI)
    fix m b assume a: "acts_on ?s (TokenCancelled m) = Some b"
    from A have "0 \<le> busy_or_0 (heap (btree ?s) b)" by simp
    with busy_step_cancelled [OF a]
    show "busy_or_0 (heap (btree (busy_step ?s (TokenCancelled m))) b) =
              (if 0 < busy_or_0 (heap (btree ?s) b) then busy_or_0 (heap (btree ?s) b) - 1 else 0)"
      by simp
  qed
  have D: "\<forall>e. fired (btree (busy_step ?s e)) = fired (btree ?s) @
            (case acts_on ?s e of
               None \<Rightarrow> []
             | Some b \<Rightarrow>
                 if (busy_or_0 (heap (btree ?s) b) = 0) \<noteq> (busy_or_0 (heap (btree (busy_step ?s e)) b) = 0)
                 then [DidChangeBusy b] else [])"
    using busy_step_fired [OF nn] by blast
  have E: "busy_or_0 (heap t a) = 0 \<and> 800 \<le> tA \<longrightarrow>
            (\<forall>now.
               busy_or_0 (heap (btree (at_time (two_markers a tA) t now)) a) =
                 (if 800 \<le> now \<and> now < tA then 1 else 0) \<and>
               fired (btree (at_time (two_markers a tA) t now)) = fired t @
                 (if now < 800 then [] else if now < tA then [DidChangeBusy a]
                  else [DidChangeBusy a, DidChangeBusy a]))"
    using two_markers_busy by blast
  from A B C D E show ?thesis by (intro conjI) assumption+
qed

lemma busy_nonneg_example: "busy_nonneg example_tree"
  by (simp add: busy_nonneg_def example_tree_def example_heap_def busy_or_0_def blank_node_def)

theorem busy_reference_count_witness:
  "busy_nonneg example_tree \<and> busy_or_0 (heap example_tree 1) = 0 \<and>
   busy_or_0 (heap (btree (at_time (two_markers 1 1000) example_tree 399)) 1) = 0 \<and>
   busy_or_0 (heap (btree (at_time (two_markers 1 1000) example_tree 400)) 1) = 0 \<and>
   busy_or_0 (heap (btree (at_time (two_markers 1 1000) example_tree 800)) 1) = 1 \<and>
   busy_or_0 (heap (btree (at_time (two_markers 1 1000) example_tree 999)) 1) = 1 \<and>
   busy_or_0 (heap (btree (at_time (two_markers 1 1000) example_tree 1000)) 1) = 0 \<and>
   fired (btree (at_time (two_markers 1 1000) example_tree 999)) = [DidChangeBusy 1] \<and>
   fired (btree (at_time (two_markers 1 1000) example_tree 1000)) = [DidChangeBusy 1, DidChangeBusy 1]"
proof -
  have z: "busy_or_0 (heap example_tree 1) = 0"
    by (simp add: example_tree_def example_heap_def busy_or_0_def blank_node_def)
  have f: "fired example_tree = []" by (simp add: example_tree_def)
  from busy_reference_count [OF busy_nonneg_example, of "[]" 1 1000] z
  have "\<forall>now.
      busy_or_0 (heap (btree (at_time (two_markers 1 1000) example_tree now)) 1) =
        (if 800 \<le> now \<and> now < 1000 then 1 else 0) \<and>
      fired (btree (at_time (two_markers 1 1000) example_tree now)) = fired example_tree @
        (if now < 800 then [] else if now < 1000 then [DidChangeBusy 1]
         else [DidChangeBusy 1, DidChangeBusy 1])"
    by simp
  from this [THEN spec, of 399] this [THEN spec, of 400] this [THEN spec, of 800]
    this [THEN spec, of 999] this [THEN spec, of 1000] z f busy_nonneg_example
  show ?thesis by simp
qed

section \<open>Reconciliation in the source tree\<close>

lemma toNode_existing:
  assumes "getNode t (Some (elementId el index p t)) = Found a"
  shows "fst (toNode el index p t) = Inr a"
    and "selected (heap (snd (toNode el index p t)) a) = selected (heap t a)"
    and "el_hasElements el \<Longrightarrow> ExpandableTreeNode_is (heap t a) \<Longrightarrow>
           expanded (heap (snd (toNode el index p t)) a) = expanded (heap t a)"
    and "fresh (snd (toNode el index p t)) = fresh t"
    and "b \<noteq> a \<Longrightarrow> heap (snd (toNode el index p t)) b = heap t b"
    and "nodes (snd (toNode el index p t)) = nodes t"
    and "element (heap (snd (toNode el index p t)) a) = Some el"
    and "parent (heap (snd (toNode el index p t)) a) = Some p"
    and "nid (heap (snd (toNode el index p t)) a) = nid (heap t a)"
  using assms
  by (auto simp: toNode_def Let_def ExpandableTreeNode_is_def CompositeTreeNode_is_def
      CompositeTreeElementNode_is_def)

lemma toNode_new:
  assumes "\<not> truthy (getNode t (Some (elementId el index p t)))"
  shows "fst (toNode el index p t) = Inr (fresh t)"
    and "selected (heap (snd (toNode el index p t)) (fresh t)) = Some False"
    and "nid (heap (snd (toNode el index p t)) (fresh t)) = elementId el index p t"
    and "fresh (snd (toNode el index p t)) = Suc (fresh t)"
    and "b \<noteq> fresh t \<Longrightarrow> heap (snd (toNode el index p t)) b = heap t b"
    and "nodes (snd (toNode el index p t)) = nodes t"
    and "element (heap (snd (toNode el index p t)) (fresh t)) = Some el"
    and "parent (heap (snd (toNode el index p t)) (fresh t)) = Some p"
  using assms
  by (cases "getNode t (Some (elementId el index p t))";
      simp add: toNode_def newNode_def Let_def blank_node_def)+

lemma toNode_other:
  assumes "getNode t (Some (elementId el index p t)) = Other v" "truthy (Other v)"
  shows "toNode el index p t = (Inl v, t)"
  using assms by (simp add: toNode_def Let_def)

lemma toNode_cases:
  obtains (existing) a where "getNode t (Some (elementId el index p t)) = Found a"
  | (new) "\<not> truthy (getNode t (Some (elementId el index p t)))"
  | (other) v where "getNode t (Some (elementId el index p t)) = Other v" "truthy (Other v)"
  by (cases "getNode t (Some (elementId el index p t))") auto

lemma toNode_old_selected:
  "b < fresh t \<Longrightarrow> selected (heap (snd (toNode el index p t)) b) = selected (heap t b)"
proof (cases rule: toNode_cases [of t el index p])
  case new
  assume "b < fresh t"
  then have "b \<noteq> fresh t" by simp
  from toNode_new(5) [OF new this] show ?thesis by simp
next
  case (existing a)
  show ?thesis
  proof (cases "b = a")
    case True
    with toNode_existing(2) [OF existing] show ?thesis by simp
  next
    case False
    from toNode_existing(5) [OF existing False] show ?thesis by simp
  qed
next
  case (other v)
  then show ?thesis by (simp add: toNode_other)
qed

lemma toNode_fresh: "fresh t \<le> fresh (snd (toNode el index p t))"
  by (cases rule: toNode_cases [of t el index p])
     (simp_all add: toNode_existing(4) toNode_new(4) toNode_other)

lemma toNode_new_selected:
  assumes "fresh t \<le> b" "b < fresh (snd (toNode el index p t))"
  shows "selected (heap (snd (toNode el index p t)) b) = Some False"
proof (cases rule: toNode_cases [of t el index p])
  case new
  with assms toNode_new(4) [OF new] have "b = fresh t" by simp
  with toNode_new(2) [OF new] show ?thesis by simp
next
  case (existing a)
  with assms toNode_existing(4) [OF existing] show ?thesis by simp
next
  case (other v)
  with assms show ?thesis by (simp add: toNode_other)
qed

lemma snd_sourceNodes_Cons:
  "el_visible el \<noteq> Some False \<Longrightarrow>
   snd (sourceNodes (el # els) index p t) =
     (case fst (toNode el index p t) of
        Inl v \<Rightarrow> snd (toNode el index p t)
      | Inr a \<Rightarrow> snd (sourceNodes els (Suc index) p (snd (toNode el index p t))))"
  by (simp split: prod.splits sum.splits)

lemma sourceNodes_selected:
  "fresh t \<le> fresh (snd (sourceNodes els index p t)) \<and>
   (\<forall>b. b < fresh t \<longrightarrow> selected (heap (snd (sourceNodes els index p t)) b) = selected (heap t b)) \<and>
   (\<forall>b. fresh t \<le> b \<and> b < fresh (snd (sourceNodes els index p t)) \<longrightarrow>
        selected (heap (snd (sourceNodes els index p t)) b) = Some False)"
proof (induction els arbitrary: index t)
  case Nil
  show ?case by auto
next
  case (Cons el els)
  show ?case
  proof (cases "el_visible el \<noteq> Some False")
    case False
    with Cons.IH [where index = index and t = t] show ?thesis by simp
  next
    case True
    let ?t1 = "snd (toNode el index p t)"
    have f1: "fresh t \<le> fresh ?t1" by (rule toNode_fresh)
    show ?thesis
    proof (cases "fst (toNode el index p t)")
      case (Inl v)
      with True have eq: "snd (sourceNodes (el # els) index p t) = ?t1"
        by (simp add: snd_sourceNodes_Cons del: sourceNodes.simps)
      show ?thesis
        unfolding eq using f1 toNode_old_selected [of _ t el index p]
          toNode_new_selected [of t _ el index p]
        by blast
    next
      case (Inr a)
      let ?t2 = "snd (sourceNodes els (Suc index) p ?t1)"
      from True Inr have eq: "snd (sourceNodes (el # els) index p t) = ?t2"
        by (simp add: snd_sourceNodes_Cons del: sourceNodes.simps)
      note ih = Cons.IH [where index = "Suc index" and t = ?t1]
      from ih have f2: "fresh ?t1 \<le> fresh ?t2" by simp
      have old: "selected (heap ?t2 b) = selected (heap t b)" if "b < fresh t" for b
      proof -
        from that f1 have "b < fresh ?t1" by simp
        with ih have "selected (heap ?t2 b) = selected (heap ?t1 b)" by simp
        with toNode_old_selected [OF that] show ?thesis by simp
      qed
      have new: "selected (heap ?t2 b) = Some False" if "fresh t \<le> b" "b < fresh ?t2" for b
      proof (cases "b < fresh ?t1")
        case True
        with ih have "selected (heap ?t2 b) = selected (heap ?t1 b)" by simp
        with toNode_new_selected [OF that(1) True] show ?thesis by simp
      next
        case False
        with that(2) ih show ?thesis by simp
      qed
      from f1 f2 old new show ?thesis unfolding eq by auto
    qed
  qed
qed

text \<open>
  Where the code reconciles.  \<^verbatim>\<open>toNode\<close> for an element whose computed id
  the Node Store answers with a node object returns that object and makes no new one; it
  assigns the element and the parent to it and leaves its \<^verbatim>\<open>selected\<close> property as it
  was; when the element has elements and the object was an expandable node, its
  \<^verbatim>\<open>expanded\<close> property stays as it was too.  For an element whose computed id the
  store answers with nothing (or with something falsy) it returns a new object with that
  id, the element, the parent and \<^verbatim>\<open>selected: false\<close>.  A visible element's node is
  the head of what \<^verbatim>\<open>resolveChildren\<close> returns.  Over a whole \<^verbatim>\<open>resolveChildren\<close>,
  every object that existed before keeps its \<^verbatim>\<open>selected\<close> property, and every object
  made has \<^verbatim>\<open>selected: false\<close>.
\<close>

lemma refresh_reconciliation:
  "(getNode t (Some (elementId el index p t)) = Found a \<longrightarrow>
      fst (toNode el index p t) = Inr a \<and>
      fresh (snd (toNode el index p t)) = fresh t \<and>
      element (heap (snd (toNode el index p t)) a) = Some el \<and>
      parent (heap (snd (toNode el index p t)) a) = Some p \<and>
      nid (heap (snd (toNode el index p t)) a) = nid (heap t a) \<and>
      selected (heap (snd (toNode el index p t)) a) = selected (heap t a) \<and>
      (el_hasElements el \<and> ExpandableTreeNode_is (heap t a) \<longrightarrow>
         expanded (heap (snd (toNode el index p t)) a) = expanded (heap t a)) \<and>
      (\<forall>b. b \<noteq> a \<longrightarrow> heap (snd (toNode el index p t)) b = heap t b)) \<and>
   (\<not> truthy (getNode t (Some (elementId el index p t))) \<longrightarrow>
      fst (toNode el index p t) = Inr (fresh t) \<and>
      fresh (snd (toNode el index p t)) = Suc (fresh t) \<and>
      nid (heap (snd (toNode el index p t)) (fresh t)) = elementId el index p t \<and>
      element (heap (snd (toNode el index p t)) (fresh t)) = Some el \<and>
      parent (heap (snd (toNode el index p t)) (fresh t)) = Some p \<and>
      selected (heap (snd (toNode el index p t)) (fresh t)) = Some False) \<and>
   (el_visible el \<noteq> Some False \<and> toNode el index p t = (Inr a, t1) \<and>
    sourceNodes els (Suc index) p t1 = (Inr as, t2) \<longrightarrow>
      sourceNodes (el # els) index p t = (Inr (a # as), t2)) \<and>
   (\<forall>b. b < fresh t \<longrightarrow>
      selected (heap (snd (sourceResolveChildren els t p)) b) = selected (heap t b)) \<and>
   (\<forall>b. fresh t \<le> b \<and> b < fresh (snd (sourceResolveChildren els t p)) \<longrightarrow>
      selected (heap (snd (sourceResolveChildren els t p)) b) = Some False)"
proof -
  have A: "getNode t (Some (elementId el index p t)) = Found a \<longrightarrow>
      fst (toNode el index p t) = Inr a \<and>
      fresh (snd (toNode el index p t)) = fresh t \<and>
      element (heap (snd (toNode el index p t)) a) = Some el \<and>
      parent (heap (snd (toNode el index p t)) a) = Some p \<and>
      nid (heap (snd (toNode el index p t)) a) = nid (heap t a) \<and>
      selected (heap (snd (toNode el index p t)) a) = selected (heap t a) \<and>
      (el_hasElements el \<and> ExpandableTreeNode_is (heap t a) \<longrightarrow>
         expanded (heap (snd (toNode el index p t)) a) = expanded (heap t a)) \<and>
      (\<forall>b. b \<noteq> a \<longrightarrow> heap (snd (toNode el index p t)) b = heap t b)"
    using toNode_existing [of t el index p a] by blast
  have B: "\<not> truthy (getNode t (Some (elementId el index p t))) \<longrightarrow>
      fst (toNode el index p t) = Inr (fresh t) \<and>
      fresh (snd (toNode el index p t)) = Suc (fresh t) \<and>
      nid (heap (snd (toNode el index p t)) (fresh t)) = elementId el index p t \<and>
      element (heap (snd (toNode el index p t)) (fresh t)) = Some el \<and>
      parent (heap (snd (toNode el index p t)) (fresh t)) = Some p \<and>
      selected (heap (snd (toNode el index p t)) (fresh t)) = Some False"
    using toNode_new [of t el index p] by blast
  have R: "el_visible el \<noteq> Some False \<and> toNode el index p t = (Inr a, t1) \<and>
    sourceNodes els (Suc index) p t1 = (Inr as, t2) \<longrightarrow>
      sourceNodes (el # els) index p t = (Inr (a # as), t2)"
    by simp
  from sourceNodes_selected [of t els 0 p]
  have C: "\<forall>b. b < fresh t \<longrightarrow>
      selected (heap (snd (sourceResolveChildren els t p)) b) = selected (heap t b)"
    and D: "\<forall>b. fresh t \<le> b \<and> b < fresh (snd (sourceResolveChildren els t p)) \<longrightarrow>
      selected (heap (snd (sourceResolveChildren els t p)) b) = Some False"
    by (simp_all add: sourceResolveChildren_def)
  from A B R C D show ?thesis by (intro conjI) assumption+
qed

text \<open>
  On the small tree with object 1 selected and filed under \<^verbatim>\<open>dir1\<close>: the element
  \<^verbatim>\<open>dir1\<close> is merged into object 1, which stays selected and expanded, the element
  \<^verbatim>\<open>new\<close> gets the new object 5, and \<^verbatim>\<open>resolveChildren\<close> returns the two in order.
\<close>

lemma refresh_reconciliation_example:
  "fst (sourceResolveChildren
          [\<lparr>el_id = Some ''dir1'', el_visible = None, el_hasElements = True, el_expandByDefault = None\<rparr>,
           \<lparr>el_id = Some ''hidden'', el_visible = Some False, el_hasElements = False,
            el_expandByDefault = None\<rparr>,
           \<lparr>el_id = Some ''new'', el_visible = None, el_hasElements = False, el_expandByDefault = None\<rparr>]
          (example_tree\<lparr>heap := example_heap(1 := (example_heap 1)\<lparr>selected := Some True\<rparr>),
                        nodes := [''dir1'' \<mapsto> 1]\<rparr>) 0)
     = Inr [1, 5] \<and>
   map (\<lambda>a. (nid a, selected a, expanded a, parent a, map_option el_id (element a)))
     (map (heap (snd (sourceResolveChildren
          [\<lparr>el_id = Some ''dir1'', el_visible = None, el_hasElements = True, el_expandByDefault = None\<rparr>,
           \<lparr>el_id = Some ''hidden'', el_visible = Some False, el_hasElements = False,
            el_expandByDefault = None\<rparr>,
           \<lparr>el_id = Some ''new'', el_visible = None, el_hasElements = False, el_expandByDefault = None\<rparr>]
          (example_tree\<lparr>heap := example_heap(1 := (example_heap 1)\<lparr>selected := Some True\<rparr>),
                        nodes := [''dir1'' \<mapsto> 1]\<rparr>) 0))) [1, 5])
     = [(''dir1'', Some True, Some True, Some 0, Some (Some ''dir1'')),
        (''new'', Some False, None, Some 0, Some (Some ''new''))]"
  by (simp add: sourceResolveChildren_def toNode_def newNode_def getNode_def store_get_def
      elementId_def example_tree_def example_heap_simps blank_node_def Let_def
      object_prototype_def object_prototype_keys_def ExpandableTreeNode_is_def
      CompositeTreeNode_is_def)

lemma example_store_simps:
  "heap example_tree = example_heap" "nodes example_tree = Map.empty" "proto example_tree = None"
  "fresh example_tree = 5"
  by (simp_all add: example_tree_def)

text \<open>
  C9, where the code does not do what it says.  The Node Store of the small tree files
  nothing, so the id \<^verbatim>\<open>constructor\<close> is new to it.  Yet \<^verbatim>\<open>getNode('constructor')\<close>
  answers with the function the store inherits from \<^verbatim>\<open>Object.prototype\<close>, and
  \<^verbatim>\<open>toNode\<close> for an element with that id takes it for the existing node and returns
  it: no node object is made, and \<^verbatim>\<open>resolveChildren\<close> hands it on among the nodes.  The
  same element under the id \<^verbatim>\<open>file2\<close> gets a new node object with \<^verbatim>\<open>selected: false\<close>.
\<close>

theorem toNode_inherited_key:
  "nodes example_tree ''constructor'' = None \<and>
   getNode example_tree (Some ''constructor'') = Other (Builtin ''constructor'') \<and>
   toNode \<lparr>el_id = Some ''constructor'', el_visible = None, el_hasElements = False,
           el_expandByDefault = None\<rparr> 0 0 example_tree
     = (Inl (Builtin ''constructor''), example_tree) \<and>
   sourceResolveChildren
     [\<lparr>el_id = Some ''constructor'', el_visible = None, el_hasElements = False,
       el_expandByDefault = None\<rparr>] example_tree 0
     = (Inl (Builtin ''constructor''), example_tree) \<and>
   fst (toNode \<lparr>el_id = Some ''file2'', el_visible = None, el_hasElements = False,
                el_expandByDefault = None\<rparr> 0 0 example_tree) = Inr 5 \<and>
   selected (heap (snd (toNode \<lparr>el_id = Some ''file2'', el_visible = None, el_hasElements = False,
                el_expandByDefault = None\<rparr> 0 0 example_tree)) 5) = Some False"
proof -
  let ?c = "\<lparr>el_id = Some ''constructor'', el_visible = None, el_hasElements = False,
           el_expandByDefault = None\<rparr>"
  let ?f = "\<lparr>el_id = Some ''file2'', el_visible = None, el_hasElements = False,
           el_expandByDefault = None\<rparr>"
  have i: "elementId ?c 0 0 example_tree = ''constructor''" "elementId ?f 0 0 example_tree = ''file2''"
    by (simp_all add: elementId_def)
  have n: "nodes example_tree ''constructor'' = None" by (simp add: example_store_simps)
  have g: "getNode example_tree (Some ''constructor'') = Other (Builtin ''constructor'')"
    by (simp add: getNode_def store_get_def example_store_simps object_prototype_def
        object_prototype_keys_def)
  have g2: "getNode example_tree (Some ''file2'') = Absent"
    by (simp add: getNode_def store_get_def example_store_simps object_prototype_def
        object_prototype_keys_def)
  have t: "toNode ?c 0 0 example_tree = (Inl (Builtin ''constructor''), example_tree)"
    by (rule toNode_other) (simp_all add: i g)
  then have s: "sourceResolveChildren [?c] example_tree 0 = (Inl (Builtin ''constructor''), example_tree)"
    by (simp add: sourceResolveChildren_def)
  have f: "fst (toNode ?f 0 0 example_tree) = Inr 5"
    "selected (heap (snd (toNode ?f 0 0 example_tree)) 5) = Some False"
    using toNode_new(1,2) [of example_tree ?f 0 0] by (simp_all add: i g2 example_store_simps)
  from n g t s f show ?thesis by (intro conjI) assumption+
qed

section \<open>Moving by one node\<close>

















section \<open>What addNode and removeNode leave alone\<close>

lemma unlinked_fields:
  assumes "unlinked n' = unlinked n"
  shows "children n' = children n" "nid n' = nid n" "selected n' = selected n"
    "expanded n' = expanded n" "busy n' = busy n" "visible n' = visible n"
    "element n' = element n" "name n' = name n"
proof -
  have "children (unlinked n') = children (unlinked n)" "nid (unlinked n') = nid (unlinked n)"
    "selected (unlinked n') = selected (unlinked n)" "expanded (unlinked n') = expanded (unlinked n)"
    "busy (unlinked n') = busy (unlinked n)" "visible (unlinked n') = visible (unlinked n)"
    "element (unlinked n') = element (unlinked n)" "name (unlinked n') = name (unlinked n)"
    using assms by simp_all
  then show "children n' = children n" "nid n' = nid n" "selected n' = selected n"
    "expanded n' = expanded n" "busy n' = busy n" "visible n' = visible n"
    "element n' = element n" "name n' = name n"
    by (simp_all add: unlinked_def)
qed

lemma unlinked_setParent: "unlinked (setParent c i p h b) = unlinked (h b)"
  by (simp add: setParent_def Let_def unlinked_def split: option.splits nat.splits)

lemma forEachIndexed_inv:
  assumes "forEachIndexed body cs i s = Some s'" "I s"
    and "\<And>c j x x'. c \<in> set cs \<Longrightarrow> body c j x = Some x' \<Longrightarrow> I x \<Longrightarrow> I x'"
  shows "I s'"
  using assms
proof (induction cs arbitrary: i s)
  case Nil
  then show ?case by simp
next
  case (Cons c cs)
  from Cons.prems(1) obtain s1 where b: "body c i s = Some s1"
    and r: "forEachIndexed body cs (Suc i) s1 = Some s'"
    by (auto split: option.splits)
  from Cons.prems(3) [OF _ b Cons.prems(2)] have "I s1" by simp
  show ?case
  proof (rule Cons.IH [OF r \<open>I s1\<close>])
    fix c' j x x'
    assume "c' \<in> set cs" "body c' j x = Some x'" "I x"
    then show "I x'" using Cons.prems(3) [of c' j x x'] by simp
  qed
qed

lemma store_set_fields:
  "heap (store_set k a t) = heap t" "root (store_set k a t) = root t"
  "fired (store_set k a t) = fired t" "fresh (store_set k a t) = fresh t"
  by (simp_all add: store_set_def)


lemma links_only_refl: "links_only t t"
  by (simp add: links_only_def)

lemma links_only_trans: "links_only t t1 \<Longrightarrow> links_only t1 t2 \<Longrightarrow> links_only t t2"
  by (simp add: links_only_def)

lemma addNode_links_only: "addNode f n t = Some t' \<Longrightarrow> links_only t t'"
proof (induction f arbitrary: n t t')
  case 0
  then show ?case by simp
next
  case (Suc f)
  show ?case
  proof (cases n)
    case None
    with Suc.prems show ?thesis by (simp add: links_only_refl)
  next
    case (Some a)
    let ?t1 = "store_set (nid (heap t a)) a t"
    have l1: "links_only t ?t1" by (simp add: links_only_def store_set_fields)
    show ?thesis
    proof (cases "children (heap t a)")
      case None
      with Some Suc.prems l1 show ?thesis by (simp add: Let_def store_set_fields)
    next
      case (Some cs)
      with \<open>n = Some a\<close> Suc.prems
      have loop: "forEachIndexed
               (\<lambda>child index t'. addNode f (Some child) (t'\<lparr>heap := setParent child index a (heap t')\<rparr>))
               cs 0 ?t1 = Some t'"
        by (simp add: Let_def store_set_fields)
      show ?thesis
      proof (rule forEachIndexed_inv [OF loop, where I = "links_only t"])
        show "links_only t ?t1" by (rule l1)
      next
        fix c j x x'
        assume b: "addNode f (Some c) (x\<lparr>heap := setParent c j a (heap x)\<rparr>) = Some x'"
          and i: "links_only t x"
        have "links_only x (x\<lparr>heap := setParent c j a (heap x)\<rparr>)"
          by (simp add: links_only_def unlinked_setParent)
        with i Suc.IH [OF b] show "links_only t x'"
          by (blast intro: links_only_trans)
      qed
    qed
  qed
qed


section \<open>Cancelling a refresh\<close>

lemma links_only_children: "links_only t t' \<Longrightarrow> children (heap t' b) = children (heap t b)"
  by (rule unlinked_fields(1)) (simp add: links_only_def)

lemma setChildren_installs:
  assumes "setChildren f p cs t = Some (Some p', t')"
  shows "children (heap t' p) = Some cs"
proof -
  from assms obtain r t1 t2 where
    rm: "removeNode f (Some p) t = Some t1"
    and ad: "addNode f (Some p) (t1\<lparr>heap := (heap t1)(p := (heap t1 p)\<lparr>children := Some cs\<rparr>)\<rparr>) = Some t2"
    and t': "t' = fireNodeRefreshed p t2"
    by (auto simp: setChildren_def split: option.splits if_splits)
  from links_only_children [OF addNode_links_only [OF ad], of p]
  have "children (heap t2 p) = Some cs" by simp
  with t' show ?thesis by (simp add: fireNodeRefreshed_def fireChanged_def)
qed

lemma stored_tree_simps:
  "heap stored_tree = example_heap" "root stored_tree = Some 4"
  "nodes stored_tree = [''root'' \<mapsto> 4]" "fired stored_tree = []" "proto stored_tree = None"
  by (simp_all add: stored_tree_def example_tree_def)

lemma g: "getRootNode (Suc (Suc (Suc 0))) example_heap 4 = Some 4"
  by (simp add: example_heap_simps blank_node_def)

lemma rm: "removeNode (Suc (Suc (Suc 0))) (Some 4) stored_tree =
   Some (stored_tree\<lparr>nodes := (nodes stored_tree)(''root'' := None)\<rparr>)"
  by (simp add: stored_tree_simps example_heap_simps blank_node_def store_delete_def)




lemma setParent_keeps:
  "children (setParent c i p h b) = children (h b)" "nid (setParent c i p h b) = nid (h b)"
  using unlinked_fields [OF unlinked_setParent] by blast+

lemma addNode_leaf:
  "children (heap t a) = None \<Longrightarrow>
   addNode (Suc f) (Some a) t = Some (store_set (nid (heap t a)) a t)"
  by (simp add: Let_def store_set_fields)

lemma addNode_composite:
  "children (heap t a) = Some cs \<Longrightarrow>
   addNode (Suc f) (Some a) t =
     forEachIndexed
       (\<lambda>child index t'. addNode f (Some child) (t'\<lparr>heap := setParent child index a (heap t')\<rparr>))
       cs 0 (store_set (nid (heap t a)) a t)"
  by (simp add: Let_def store_set_fields)

lemma ad: "\<exists>t2. addNode (Suc (Suc (Suc 0))) (Some 4)
     (stored_tree\<lparr>nodes := (nodes stored_tree)(''root'' := None),
        heap := example_heap(4 := (example_heap 4)\<lparr>children := Some [2]\<rparr>)\<rparr>) = Some t2 \<and>
     children (heap t2 4) = Some [2] \<and> nodes t2 ''dir2'' = Some 2"
  by (simp add: addNode_composite addNode_leaf setParent_keeps example_heap_simps blank_node_def
      store_set_def del: addNode.simps)

lemma example_setChildren:
  "\<exists>t3. setChildren (Suc (Suc (Suc 0))) 4 [2] stored_tree = Some (Some 4, t3) \<and>
        children (heap t3 4) = Some [2] \<and> nodes t3 ''dir2'' = Some 2"
proof -
  from ad obtain t2 where a: "addNode (Suc (Suc (Suc 0))) (Some 4)
     (stored_tree\<lparr>nodes := (nodes stored_tree)(''root'' := None),
        heap := example_heap(4 := (example_heap 4)\<lparr>children := Some [2]\<rparr>)\<rparr>) = Some t2"
    and c: "children (heap t2 4) = Some [2]" "nodes t2 ''dir2'' = Some 2"
    by blast
  have "setChildren (Suc (Suc (Suc 0))) 4 [2] stored_tree = Some (Some 4, fireNodeRefreshed 4 t2)"
    using a unfolding setChildren_def
    by (simp add: g rm stored_tree_simps example_heap_simps blank_node_def store_get_def
        del: addNode.simps removeNode.simps getRootNode.simps)
  with c show ?thesis by (simp add: fireNodeRefreshed_def fireChanged_def)
qed


text \<open>
  With object 4 as the root, a refresh of the root whose token reads as cancelled only at
  the second check returns \<^verbatim>\<open>undefined\<close>, yet the root's \<^verbatim>\<open>children\<close> have been
  replaced and node \<^verbatim>\<open>dir2\<close> has been added to the Node Store.
\<close>

theorem refresh_cancel_counterexample:
  "map_option fst (refresh (Suc (Suc (Suc 0))) None (Some (False, True)) False resolve_dir2 stored_tree)
     = Some None \<and>
   children (heap stored_tree 4) = Some [] \<and>
   map_option (\<lambda>r. children (heap (snd r) 4))
     (refresh (Suc (Suc (Suc 0))) None (Some (False, True)) False resolve_dir2 stored_tree)
     = Some (Some [2]) \<and>
   nodes stored_tree ''dir2'' = None \<and>
   map_option (\<lambda>r. nodes (snd r) ''dir2'')
     (refresh (Suc (Suc (Suc 0))) None (Some (False, True)) False resolve_dir2 stored_tree)
     = Some (Some 2)"
proof -
  from example_setChildren obtain t3 where
    sc: "setChildren (Suc (Suc (Suc 0))) 4 [2] stored_tree = Some (Some 4, t3)"
    and c: "children (heap t3 4) = Some [2]" and n: "nodes t3 ''dir2'' = Some 2"
    by blast
  have r: "refresh (Suc (Suc (Suc 0))) None (Some (False, True)) False resolve_dir2 stored_tree
      = Some (None, doResetBusy 4 t3)"
    unfolding refresh_def
    apply (simp add: stored_tree_simps CompositeTreeNode_is_def example_heap_simps
        blank_node_def resolve_dir2_def refresh_target_def
        del: addNode.simps removeNode.simps getRootNode.simps)
    apply (simp add: sc)
    done
  show ?thesis
    unfolding r using c n
    by (simp add: doResetBusy_fields stored_tree_simps example_heap_simps blank_node_def)
qed

text \<open>
  C2, as the code has it.  Let the target of \<^verbatim>\<open>refresh\<close> be a composite node and let
  resolving its children leave the Node Store and every \<^verbatim>\<open>children\<close> array alone.
  If the token reads as cancelled at the first check, after \<^verbatim>\<open>resolveChildren\<close> has
  resolved, \<^verbatim>\<open>refresh\<close> returns \<^verbatim>\<open>undefined\<close> and the Node Store, the root and
  every \<^verbatim>\<open>children\<close> array are as before the call.  If it reads as cancelled only at
  the second check, after \<^verbatim>\<open>setChildren\<close> has installed the children,
  \<^verbatim>\<open>refresh\<close> returns \<^verbatim>\<open>undefined\<close> as well, but the target's \<^verbatim>\<open>children\<close> are
  the resolved ones.
\<close>

theorem refresh_cancellation:
  assumes "refresh_target t raw = Found p"
    and "CompositeTreeNode_is (heap t) p"
    and "rc t p = (cs, t1)" and "nodes t1 = nodes t" and "root t1 = root t"
    and "\<forall>b. children (heap t1 b) = children (heap t b)"
  shows "(\<exists>t'. refresh f raw (Some (True, c2)) busyElapsed rc t = Some (None, t') \<and>
               nodes t' = nodes t \<and> root t' = root t \<and>
               (\<forall>b. children (heap t' b) = children (heap t b))) \<and>
         (\<forall>t3. setChildren f p cs (if busyElapsed then doSetBusy p t1 else t1) = Some (Some p, t3) \<longrightarrow>
               (\<exists>t'. refresh f raw (Some (False, True)) busyElapsed rc t = Some (None, t') \<and>
                     children (heap t' p) = Some cs))"
proof (intro conjI allI impI)
  let ?t2 = "if busyElapsed then doSetBusy p t1 else t1"
  have "refresh f raw (Some (True, c2)) busyElapsed rc t = Some (None, doResetBusy p ?t2)"
    using assms(1,2,3) by (simp add: refresh_def)
  moreover have "nodes (doResetBusy p ?t2) = nodes t" "root (doResetBusy p ?t2) = root t"
    "\<forall>b. children (heap (doResetBusy p ?t2) b) = children (heap t b)"
    using assms(4,5,6) by (simp_all add: doResetBusy_fields doSetBusy_fields)
  ultimately show "\<exists>t'. refresh f raw (Some (True, c2)) busyElapsed rc t = Some (None, t') \<and>
               nodes t' = nodes t \<and> root t' = root t \<and>
               (\<forall>b. children (heap t' b) = children (heap t b))"
    by blast
next
  fix t3
  let ?t2 = "if busyElapsed then doSetBusy p t1 else t1"
  assume sc: "setChildren f p cs ?t2 = Some (Some p, t3)"
  have "refresh f raw (Some (False, True)) busyElapsed rc t = Some (None, doResetBusy p t3)"
    using assms(1,2,3) sc by (simp add: refresh_def)
  moreover from setChildren_installs [OF sc]
  have "children (heap (doResetBusy p t3) p) = Some cs"
    by (simp add: doResetBusy_fields)
  ultimately show "\<exists>t'. refresh f raw (Some (False, True)) busyElapsed rc t = Some (None, t') \<and>
                     children (heap t' p) = Some cs"
    by blast
qed

theorem refresh_cancellation_witness:
  "root stored_tree = Some 4 \<and> CompositeTreeNode_is (heap stored_tree) 4 \<and>
   resolve_dir2 stored_tree 4 = ([2], stored_tree) \<and>
   (\<exists>t'. refresh (Suc (Suc (Suc 0))) None (Some (True, True)) False resolve_dir2 stored_tree
           = Some (None, t') \<and>
         nodes t' = nodes stored_tree \<and> children (heap t' 4) = Some []) \<and>
   (\<exists>t'. refresh (Suc (Suc (Suc 0))) None (Some (False, True)) False resolve_dir2 stored_tree
           = Some (None, t') \<and>
         children (heap t' 4) = Some [2])"
proof -
  have a: "refresh_target stored_tree None = Found 4"
    by (simp add: refresh_target_def stored_tree_simps)
  have b: "CompositeTreeNode_is (heap stored_tree) 4"
    by (simp add: CompositeTreeNode_is_def stored_tree_simps example_heap_simps blank_node_def)
  have c: "resolve_dir2 stored_tree 4 = ([2], stored_tree)" by (simp add: resolve_dir2_def)
  have d: "children (heap stored_tree 4) = Some []"
    by (simp add: stored_tree_simps example_heap_simps blank_node_def)
  from example_setChildren obtain t3 where
    sc0: "setChildren (Suc (Suc (Suc 0))) 4 [2] stored_tree = Some (Some 4, t3)"
    by blast
  then have sc: "setChildren (Suc (Suc (Suc 0))) 4 [2]
      (if False then doSetBusy 4 stored_tree else stored_tree) = Some (Some 4, t3)"
    by (simp only: if_False)
  have e: "\<forall>b. children (heap stored_tree b) = children (heap stored_tree b)" by simp
  note th = refresh_cancellation [where raw = None and t = stored_tree and p = 4
      and rc = resolve_dir2 and cs = "[2]" and ?t1.0 = stored_tree and f = "Suc (Suc (Suc 0))"
      and ?c2.0 = True and busyElapsed = False, OF a b c refl refl e]
  from th [THEN conjunct1] obtain t' where
    r1: "refresh (Suc (Suc (Suc 0))) None (Some (True, True)) False resolve_dir2 stored_tree = Some (None, t')"
    and n1: "nodes t' = nodes stored_tree"
    and c1: "\<forall>b. children (heap t' b) = children (heap stored_tree b)"
    by blast
  from c1 d have "children (heap t' 4) = Some []" by (simp only:)
  with r1 n1
  have 1: "\<exists>t'. refresh (Suc (Suc (Suc 0))) None (Some (True, True)) False resolve_dir2 stored_tree
           = Some (None, t') \<and> nodes t' = nodes stored_tree \<and> children (heap t' 4) = Some []"
    by blast
  from th [THEN conjunct2, THEN spec, THEN mp, OF sc]
  have 2: "\<exists>t'. refresh (Suc (Suc (Suc 0))) None (Some (False, True)) False resolve_dir2 stored_tree
           = Some (None, t') \<and> children (heap t' 4) = Some [2]" .
  have a': "root stored_tree = Some 4" by (simp add: stored_tree_simps)
  from a' b c 1 2 show ?thesis by (intro conjI) assumption+
qed

section \<open>Linking a subtree\<close>



lemma addrs_root: "addrs sh = shape_root sh # below sh"
  by (cases sh) simp

lemma below_set: "set (below (Shape a ts)) = (\<Union>t \<in> set ts. set (addrs t))"
  by simp


lemma count_list_notin: "x \<notin> set xs \<Longrightarrow> count_list xs x = 0"
  by (induction xs) auto




lemma conforms_children:
  "conforms h (Shape a ts) \<Longrightarrow> ts \<noteq> [] \<Longrightarrow> children_of h a = map shape_root ts"
  by (auto simp: children_of_def split: option.splits)


















lemma linked_parent:
  assumes "conforms h sh" "linked h sh" "b \<in> set (below sh)"
  shows "\<exists>p \<in> set (addrs sh). parent (h b) = Some p \<and> count_list (children_of h p) b = 1"
  using assms
proof (induction sh)
  case (Shape a ts)
  from Shape.prems(3) obtain u where u: "u \<in> set ts" "b \<in> set (addrs u)" by auto
  then obtain i where i: "i < length ts" "u = ts ! i" by (auto simp: in_set_conv_nth)
  show ?case
  proof (cases "b = shape_root u")
    case True
    from i have ne: "ts \<noteq> []" by auto
    from conforms_children [OF Shape.prems(1) ne] i True
    have "children_of h a ! i = b" by simp
    moreover from Shape.prems(2) i have "lnk h a i" by simp
    ultimately have "parent (h b) = Some a \<and> count_list (children_of h a) b = 1"
      by (simp add: lnk_def Let_def)
    then show ?thesis by auto
  next
    case False
    with u have "b \<in> set (below u)" by (simp add: addrs_root)
    moreover from Shape.prems u have "conforms h u" "linked h u" by simp_all
    ultimately obtain p where "p \<in> set (addrs u)" "parent (h b) = Some p \<and> count_list (children_of h p) b = 1"
      using Shape.IH [OF u(1)] by blast
    with u show ?thesis by auto
  qed
qed












section \<open>The tree structure after addNode, setChildren and removeChild\<close>




end
